theory Spec2Isabelle
  imports Main "HOL-Library.List_Lexorder" "HOL-Library.Char_ord"
begin

section \<open>Strings of the host language\<close>

text \<open>
  The toolkit is TypeScript on Node.js.  A source string is modelled as a \<^typ>\<open>string\<close>, one
  \<^typ>\<open>char\<close> per code unit, which covers the code units below 256.  All path handling is the
  POSIX flavour of Node's \<^verbatim>\<open>path\<close> module, where \<^verbatim>\<open>path.sep\<close> is the slash.
\<close>

definition sep :: char where
  "sep = CHR ''/''"

definition backslash :: char where
  "backslash = CHR 0x5C"

definition LF :: char where
  "LF = CHR 0x0A"

definition CR :: char where
  "CR = CHR 0x0D"

text \<open>\<^verbatim>\<open>s.split(sep)\<close> for a one-character separator: never empty, \<^verbatim>\<open>"".split("/")\<close> is \<^verbatim>\<open>[""]\<close>.\<close>

fun splitOn :: "char \<Rightarrow> string \<Rightarrow> string list" where
  "splitOn d [] = [[]]"
| "splitOn d (c # cs) =
     (if c = d then [] # splitOn d cs
      else (case splitOn d cs of [] \<Rightarrow> [[c]] | w # ws \<Rightarrow> (c # w) # ws))"

text \<open>\<^verbatim>\<open>parts.join(glue)\<close>.\<close>

fun joinWith :: "string \<Rightarrow> string list \<Rightarrow> string" where
  "joinWith g [] = []"
| "joinWith g [x] = x"
| "joinWith g (x # y # r) = x @ g @ joinWith g (y # r)"

text \<open>\<^verbatim>\<open>s.startsWith(w)\<close>.\<close>

definition startsWith :: "string \<Rightarrow> string \<Rightarrow> bool" where
  "startsWith s w = (take (length w) s = w)"

section \<open>Regular expressions as the glob compiler uses them\<close>

text \<open>
  \<^verbatim>\<open>globToRegex\<close> builds the source text of a regular expression and hands it to
  \<^verbatim>\<open>new RegExp(...)\<close> with no flags.  The fragment of the ECMAScript pattern syntax that this
  text can contain is modelled here: the assertions \<^verbatim>\<open>^\<close> and \<^verbatim>\<open>$\<close>, a literal character
  (plain, or a syntax character behind a backslash), the dot, the class \<^verbatim>\<open>[^/]\<close>, the greedy
  star on one of these, and the optional non-capturing group \<^verbatim>\<open>(?:...)?\<close> around a sequence
  of them.  Without the \<^verbatim>\<open>s\<close> flag the dot matches every character except the line
  terminators; of those, line feed and carriage return are code units below 256.
\<close>

datatype cls = Lit char | Dot | NotSlash

datatype item = One cls | Star cls

datatype rx = Atom item | OptGroup "item list" | Bol | Eol

definition isLineTerminator :: "char \<Rightarrow> bool" where
  "isLineTerminator c = (c = LF \<or> c = CR)"

fun clsMatch :: "cls \<Rightarrow> char \<Rightarrow> bool" where
  "clsMatch (Lit c) x = (x = c)"
| "clsMatch Dot x = (\<not> isLineTerminator x)"
| "clsMatch NotSlash x = (x \<noteq> sep)"

fun rxWeight :: "rx \<Rightarrow> nat" where
  "rxWeight (OptGroup body) = Suc (Suc (length body))"
| "rxWeight _ = 1"

lemma rxWeight_atoms: "sum_list (map (rxWeight \<circ> Atom) body) = length body"
  by (induction body) auto

text \<open>
  The backtracking matcher: can the sequence match at the current position?  The flag says
  whether the current position is the start of the input (for \<^verbatim>\<open>^\<close>); the string is the
  input that is left.  The longer alternative is tried first, as a greedy quantifier does.
\<close>

function matchHere :: "rx list \<Rightarrow> bool \<Rightarrow> string \<Rightarrow> bool" where
  "matchHere [] b s = True"
| "matchHere (Bol # r) b s = (b \<and> matchHere r b s)"
| "matchHere (Eol # r) b s = (s = [] \<and> matchHere r b s)"
| "matchHere (Atom (One c) # r) b [] = False"
| "matchHere (Atom (One c) # r) b (x # xs) = (clsMatch c x \<and> matchHere r False xs)"
| "matchHere (Atom (Star c) # r) b [] = matchHere r b []"
| "matchHere (Atom (Star c) # r) b (x # xs) =
     ((clsMatch c x \<and> matchHere (Atom (Star c) # r) False xs) \<or> matchHere r b (x # xs))"
| "matchHere (OptGroup body # r) b s =
     (matchHere (map Atom body @ r) b s \<or> matchHere r b s)"
  by pat_completeness auto
termination
  by (relation "measures [\<lambda>(r, b, s). sum_list (map rxWeight r), \<lambda>(r, b, s). length s]")
     (auto simp: rxWeight_atoms)

text \<open>\<^verbatim>\<open>regex.test(s)\<close> without the \<^verbatim>\<open>g\<close> and \<^verbatim>\<open>y\<close> flags: a match may start at any index.\<close>

definition RegExp_test :: "rx list \<Rightarrow> string \<Rightarrow> bool" where
  "RegExp_test r s = list_ex (\<lambda>i. matchHere r (i = 0) (drop i s)) [0..<Suc (length s)]"

subsection \<open>Reading the pattern text\<close>

definition syntaxChar :: "char \<Rightarrow> bool" where
  "syntaxChar c = (c \<in> set ''^$.*+?()[]{}|'' \<or> c = backslash)"

fun parseCls :: "string \<Rightarrow> (cls \<times> string) option" where
  "parseCls [] = None"
| "parseCls (c # r) =
     (if c = backslash then
        (case r of [] \<Rightarrow> None
         | d # r' \<Rightarrow> if syntaxChar d then Some (Lit d, r') else None)
      else if c = CHR ''.'' then Some (Dot, r)
      else if c = CHR ''['' then
        (if take 3 r = ''^/]'' then Some (NotSlash, drop 3 r) else None)
      else if syntaxChar c then None
      else Some (Lit c, r))"

definition parseItem :: "string \<Rightarrow> (item \<times> string) option" where
  "parseItem s =
     (case parseCls s of None \<Rightarrow> None
      | Some (c, r) \<Rightarrow>
          (case r of [] \<Rightarrow> Some (One c, r)
           | x # r' \<Rightarrow> if x = CHR ''*'' then Some (Star c, r') else Some (One c, r)))"

lemma parseCls_shorter: "parseCls s = Some (c, r) \<Longrightarrow> length r < length s"
  by (cases s) (auto split: if_splits list.splits)

lemma parseItem_shorter: "parseItem s = Some (i, r) \<Longrightarrow> length r < length s"
proof -
  assume a: "parseItem s = Some (i, r)"
  then obtain c r0 where b: "parseCls s = Some (c, r0)"
    by (auto simp: parseItem_def split: option.splits)
  from a b have "length r \<le> length r0"
    by (auto simp: parseItem_def split: list.splits if_splits)
  with parseCls_shorter[OF b] show ?thesis by simp
qed

text \<open>The body of a group, up to and including its closing parenthesis.\<close>

function parseItems :: "string \<Rightarrow> (item list \<times> string) option" where
  "parseItems [] = None"
| "parseItems (c # r) =
     (if c = CHR '')'' then Some ([], r)
      else (case parseItem (c # r) of None \<Rightarrow> None
            | Some (i, r') \<Rightarrow>
                (case parseItems r' of None \<Rightarrow> None
                 | Some (is, r'') \<Rightarrow> Some (i # is, r''))))"
  by pat_completeness auto
termination
  by (relation "measure length") (auto dest: parseItem_shorter)

lemma parseItems_shorter: "parseItems s = Some (is, r) \<Longrightarrow> length r < length s"
proof (induction s arbitrary: "is" r rule: parseItems.induct)
  case 1
  then show ?case by simp
next
  case (2 c r0)
  show ?case
  proof (cases "c = CHR '')''")
    case True
    with "2.prems" show ?thesis by auto
  next
    case False
    with "2.prems" obtain i r' is' where
      a: "parseItem (c # r0) = Some (i, r')" and b: "parseItems r' = Some (is', r)"
      by (auto split: option.splits)
    from "2.IH"[OF False a refl b] parseItem_shorter[OF a] show ?thesis by simp
  qed
qed

function parseRx :: "string \<Rightarrow> rx list option" where
  "parseRx [] = Some []"
| "parseRx (c # r) =
     (if c = CHR ''^'' then map_option (Cons Bol) (parseRx r)
      else if c = CHR ''$'' then map_option (Cons Eol) (parseRx r)
      else if c = CHR ''('' then
        (if take 2 r = ''?:'' then
           (case parseItems (drop 2 r) of None \<Rightarrow> None
            | Some (body, r') \<Rightarrow>
                (case r' of [] \<Rightarrow> None
                 | q # r'' \<Rightarrow>
                     if q = CHR ''?'' then map_option (Cons (OptGroup body)) (parseRx r'')
                     else None))
         else None)
      else (case parseItem (c # r) of None \<Rightarrow> None
            | Some (i, r') \<Rightarrow> map_option (Cons (Atom i)) (parseRx r')))"
  by pat_completeness auto
termination
proof (relation "measure length", goal_cases)
  case 1
  show ?case by simp
next
  case (2 c r)
  then show ?case by simp
next
  case (3 c r)
  then show ?case by simp
next
  case (4 c r x2 body r' q r'')
  then have "length r' < length (drop 2 r)"
    by (auto dest: parseItems_shorter)
  with 4 show ?case by simp
next
  case (5 c r x2 i r')
  then show ?case by (auto dest: parseItem_shorter)
qed

text \<open>
  \<^verbatim>\<open>new RegExp(src)\<close>.  \<^const>\<open>None\<close> stands for a text outside the modelled fragment, where
  the constructor may throw.
\<close>

definition RegExp_new :: "string \<Rightarrow> rx list option" where
  "RegExp_new src = parseRx src"

section \<open>The glob compiler\<close>

text \<open>The test \<^verbatim>\<open>/[.+^${}()|[\]\\]/.test(char)\<close>.\<close>

definition needsEscape :: "char \<Rightarrow> bool" where
  "needsEscape c = (c \<in> set ''.+^${}()|[]'' \<or> c = backslash)"

text \<open>
  The loop of \<^verbatim>\<open>globToRegex\<close> over the pattern, from index \<^verbatim>\<open>i\<close> on: the argument is the
  pattern from \<^verbatim>\<open>i\<close>, the result is what the loop appends to \<^verbatim>\<open>regexPattern\<close>.
\<close>

fun globLoop :: "string \<Rightarrow> string" where
  "globLoop [] = []"
| "globLoop (c # r) =
     (if c = CHR ''*'' then
        (case r of
           [] \<Rightarrow> ''[^/]*'' @ globLoop r
         | c1 # r1 \<Rightarrow>
             if c1 = CHR ''*'' then
               (case r1 of
                  [] \<Rightarrow> ''.*'' @ globLoop r1
                | c2 # r2 \<Rightarrow>
                    if c2 = CHR ''/'' then ''(?:.*/)?'' @ globLoop r2
                    else ''.*'' @ globLoop r1)
             else ''[^/]*'' @ globLoop r)
      else if c = CHR ''?'' then ''[^/]'' @ globLoop r
      else if needsEscape c then backslash # c # globLoop r
      else c # globLoop r)"

text \<open>The text given to \<^verbatim>\<open>new RegExp\<close>.\<close>

definition globToRegexSource :: "string \<Rightarrow> string" where
  "globToRegexSource pattern =
     ''^'' @ globLoop (joinWith ''/'' (splitOn sep pattern)) @ ''$''"

definition globToRegex :: "string \<Rightarrow> rx list option" where
  "globToRegex pattern = RegExp_new (globToRegexSource pattern)"

text \<open>Compiling a pattern and testing one relative path, as the filter of \<^verbatim>\<open>glob\<close> does.\<close>

definition globTest :: "string \<Rightarrow> string \<Rightarrow> bool" where
  "globTest pattern p =
     (case globToRegex pattern of None \<Rightarrow> False | Some regex \<Rightarrow> RegExp_test regex p)"

section \<open>The glob grammar as the specification words it\<close>

text \<open>
  The specification gives the grammar as a table of tokens, scanned left to right with the
  longest token taken first: \<^verbatim>\<open>**/\<close> before \<^verbatim>\<open>**\<close> before \<^verbatim>\<open>*\<close>.  The definitions of
  this section follow that table; they are compared with the compiler below.
\<close>

datatype gtoken = TStar | TGlobstarDir | TGlobstar | TQuestion | TLiteral char

fun tokenize :: "string \<Rightarrow> gtoken list" where
  "tokenize [] = []"
| "tokenize (c # r) =
     (if c = CHR ''*'' then
        (case r of
           [] \<Rightarrow> TStar # tokenize r
         | c1 # r1 \<Rightarrow>
             if c1 = CHR ''*'' then
               (case r1 of
                  [] \<Rightarrow> TGlobstar # tokenize r1
                | c2 # r2 \<Rightarrow>
                    if c2 = CHR ''/'' then TGlobstarDir # tokenize r2
                    else TGlobstar # tokenize r1)
             else TStar # tokenize r)
      else if c = CHR ''?'' then TQuestion # tokenize r
      else TLiteral c # tokenize r)"

text \<open>A complete path segment: a run of characters other than the slash, and the slash that ends it.\<close>

definition segment :: "string \<Rightarrow> bool" where
  "segment g = (\<exists>t. g = t @ [sep] \<and> sep \<notin> set t)"

fun tokenMatches :: "gtoken \<Rightarrow> string \<Rightarrow> bool" where
  "tokenMatches TStar u = (sep \<notin> set u)"
| "tokenMatches TQuestion u = (\<exists>c. u = [c] \<and> c \<noteq> sep)"
| "tokenMatches TGlobstarDir u = (\<exists>segs. u = concat segs \<and> (\<forall>g \<in> set segs. segment g))"
| "tokenMatches TGlobstar u = True"
| "tokenMatches (TLiteral c) u = (u = [c])"

text \<open>
  A token list generates the strings that split into one piece per token.  The piece
  relation is a parameter, so that the grammar of the specification and what the compiled
  expression accepts can be stated over the same scan.
\<close>

fun generates :: "(gtoken \<Rightarrow> string \<Rightarrow> bool) \<Rightarrow> gtoken list \<Rightarrow> string \<Rightarrow> bool" where
  "generates M [] s = (s = [])"
| "generates M (t # ts) s = (\<exists>u v. s = u @ v \<and> M t u \<and> generates M ts v)"

definition specMatches :: "string \<Rightarrow> string \<Rightarrow> bool" where
  "specMatches pattern p = generates tokenMatches (tokenize pattern) p"

text \<open>
  What the compiled text of each token accepts: as \<^const>\<open>tokenMatches\<close>, but the two tokens
  compiled to a dot cannot cross a line terminator.
\<close>

fun tokenAccepts :: "gtoken \<Rightarrow> string \<Rightarrow> bool" where
  "tokenAccepts TStar u = (sep \<notin> set u)"
| "tokenAccepts TQuestion u = (\<exists>c. u = [c] \<and> c \<noteq> sep)"
| "tokenAccepts TGlobstarDir u =
     (u = [] \<or> (\<exists>w. u = w @ [sep] \<and> (\<forall>x \<in> set w. \<not> isLineTerminator x)))"
| "tokenAccepts TGlobstar u = (\<forall>x \<in> set u. \<not> isLineTerminator x)"
| "tokenAccepts (TLiteral c) u = (u = [c])"

text \<open>The expression the compiler emits for each token.\<close>

fun rxOfToken :: "gtoken \<Rightarrow> rx" where
  "rxOfToken TStar = Atom (Star NotSlash)"
| "rxOfToken TGlobstarDir = OptGroup [Star Dot, One (Lit CHR ''/'')]"
| "rxOfToken TGlobstar = Atom (Star Dot)"
| "rxOfToken TQuestion = Atom (One NotSlash)"
| "rxOfToken (TLiteral c) = Atom (One (Lit c))"

section \<open>The compiler against the grammar\<close>

lemma join_split: "joinWith [d] (splitOn d s) = s"
proof (induction s)
  case Nil
  show ?case by simp
next
  case (Cons c cs)
  show ?case
  proof (cases "c = d")
    case True
    then show ?thesis using Cons by (cases "splitOn d cs") auto
  next
    case False
    then show ?thesis using Cons
      by (cases "splitOn d cs"; cases "tl (splitOn d cs)") auto
  qed
qed

lemma splitOn_nonempty: "splitOn d s \<noteq> []"
  by (induction s) (auto split: list.splits)

lemma globLoop_no_star: "globLoop p @ ''$'' \<noteq> CHR ''*'' # t"
  by (cases p) (auto simp: backslash_def split: list.splits)

lemma parseItem_plain:
  "\<not> syntaxChar c \<Longrightarrow> t \<noteq> [] \<Longrightarrow> hd t \<noteq> CHR ''*'' \<Longrightarrow> parseItem (c # t) = Some (One (Lit c), t)"
  by (cases t) (auto simp: parseItem_def syntaxChar_def backslash_def)

lemma parseItem_escaped:
  "syntaxChar c \<Longrightarrow> t \<noteq> [] \<Longrightarrow> hd t \<noteq> CHR ''*'' \<Longrightarrow>
   parseItem (backslash # c # t) = Some (One (Lit c), t)"
  by (cases t) (auto simp: parseItem_def)

lemma tail_shape: "globLoop p @ ''$'' \<noteq> [] \<and> hd (globLoop p @ ''$'') \<noteq> CHR ''*''"
  using globLoop_no_star[of p] by (cases "globLoop p @ ''$''") auto


lemma parse_star_seg:
  "parseRx (''[^/]*'' @ t) = map_option (Cons (Atom (Star NotSlash))) (parseRx t)"
  by (simp add: parseItem_def backslash_def)

lemma parse_star_any:
  "parseRx (''.*'' @ t) = map_option (Cons (Atom (Star Dot))) (parseRx t)"
  by (simp add: parseItem_def backslash_def)

lemma parse_opt_dirs:
  "parseRx (''(?:.*/)?'' @ t) =
     map_option (Cons (OptGroup [Star Dot, One (Lit CHR ''/'')])) (parseRx t)"
  by (simp add: parseItem_def backslash_def syntaxChar_def)

lemma parse_one_seg:
  "t \<noteq> [] \<Longrightarrow> hd t \<noteq> CHR ''*'' \<Longrightarrow>
   parseRx (''[^/]'' @ t) = map_option (Cons (Atom (One NotSlash))) (parseRx t)"
  by (cases t) (auto simp: parseItem_def backslash_def)

lemma needsEscape_syntaxChar: "needsEscape c \<Longrightarrow> syntaxChar c"
  by (auto simp: needsEscape_def syntaxChar_def)

lemma plain_not_syntaxChar:
  "\<not> needsEscape c \<Longrightarrow> c \<noteq> CHR ''*'' \<Longrightarrow> c \<noteq> CHR ''?'' \<Longrightarrow> \<not> syntaxChar c"
  by (auto simp: needsEscape_def syntaxChar_def)

lemma parse_escaped:
  "needsEscape c \<Longrightarrow> t \<noteq> [] \<Longrightarrow> hd t \<noteq> CHR ''*'' \<Longrightarrow>
   parseRx (backslash # c # t) = map_option (Cons (Atom (One (Lit c)))) (parseRx t)"
  using parseItem_escaped[OF needsEscape_syntaxChar, of c t]
  by (simp add: backslash_def)

lemma parse_plain:
  "\<not> needsEscape c \<Longrightarrow> c \<noteq> CHR ''*'' \<Longrightarrow> c \<noteq> CHR ''?'' \<Longrightarrow> t \<noteq> [] \<Longrightarrow>
   hd t \<noteq> CHR ''*'' \<Longrightarrow>
   parseRx (c # t) = map_option (Cons (Atom (One (Lit c)))) (parseRx t)"
  using parseItem_plain[OF plain_not_syntaxChar, of c t]
  by (auto simp: needsEscape_def)

lemma parse_end: "parseRx ''$'' = Some [Eol]"
  by simp

lemma parse_globLoop:
  "parseRx (globLoop p @ ''$'') = Some (map rxOfToken (tokenize p) @ [Eol])"
proof (induction p rule: globLoop.induct)
  case 1
  show ?case by simp
next
  case (2 c r)
  note shape = tail_shape[of r]
  show ?case
  proof (cases "c = CHR ''*''")
    case True
    note star = this
    show ?thesis
    proof (cases r)
      case Nil
      with star show ?thesis
        using parse_star_seg[of "''$''"] parse_end by (simp del: parseRx.simps)
    next
      case (Cons c1 r1)
      note r = this
      show ?thesis
      proof (cases "c1 = CHR ''*''")
        case False
        with star r "2.IH"(5)[OF star r False] parse_star_seg[of "globLoop r @ ''$''"]
        show ?thesis by (simp del: parseRx.simps)
      next
        case True
        note star2 = this
        show ?thesis
        proof (cases r1)
          case Nil
          with star r star2 "2.IH"(2)[OF star r star2 Nil] parse_star_any[of "globLoop r1 @ ''$''"]
          show ?thesis by (simp del: parseRx.simps)
        next
          case (Cons c2 r2)
          show ?thesis
          proof (cases "c2 = CHR ''/''")
            case True
            with star r star2 Cons "2.IH"(3)[OF star r star2 Cons True]
              parse_opt_dirs[of "globLoop r2 @ ''$''"]
            show ?thesis by (simp del: parseRx.simps)
          next
            case False
            with star r star2 Cons "2.IH"(4)[OF star r star2 Cons False]
              parse_star_any[of "globLoop r1 @ ''$''"]
            show ?thesis by (simp del: parseRx.simps)
          qed
        qed
      qed
    qed
  next
    case False
    then show ?thesis
      using 2 shape parse_one_seg[of "globLoop r @ ''$''"]
        parse_escaped[of c "globLoop r @ ''$''"] parse_plain[of c "globLoop r @ ''$''"]
      by (auto simp del: parseRx.simps)
  qed
qed

lemma globToRegex_compiles:
  "globToRegex pattern = Some (Bol # map rxOfToken (tokenize pattern) @ [Eol])"
  using parse_globLoop[of pattern]
  by (simp add: globToRegex_def RegExp_new_def globToRegexSource_def sep_def
      join_split[of "CHR ''/''", simplified])


subsection \<open>What the compiled expression accepts\<close>

lemma matchHere_flag: "Bol \<notin> set r \<Longrightarrow> matchHere r b s = matchHere r False s"
  by (induction r b s rule: matchHere.induct) auto

lemma one_iff:
  "matchHere (Atom (One c) # r) b s =
     (\<exists>x v. s = x # v \<and> clsMatch c x \<and> matchHere r False v)"
  by (cases s) auto

lemma star_iff:
  "Bol \<notin> set r \<Longrightarrow>
   matchHere (Atom (Star c) # r) b s =
     (\<exists>u v. s = u @ v \<and> (\<forall>x \<in> set u. clsMatch c x) \<and> matchHere r False v)"
proof (induction s arbitrary: b)
  case Nil
  then show ?case using matchHere_flag[of r b "[]"] by simp
next
  case (Cons x xs)
  have "matchHere (Atom (Star c) # r) b (x # xs) =
          ((clsMatch c x \<and> matchHere (Atom (Star c) # r) False xs) \<or> matchHere r False (x # xs))"
    using matchHere_flag[OF Cons.prems, of b "x # xs"] by simp
  also have "\<dots> = ((clsMatch c x \<and>
        (\<exists>u v. xs = u @ v \<and> (\<forall>y \<in> set u. clsMatch c y) \<and> matchHere r False v))
      \<or> matchHere r False (x # xs))"
    using Cons.IH[OF Cons.prems] by simp
  also have "\<dots> = (\<exists>u v. x # xs = u @ v \<and> (\<forall>y \<in> set u. clsMatch c y) \<and> matchHere r False v)"
    (is "?L = ?R")
  proof
    assume ?L
    then show ?R
    proof
      assume "clsMatch c x \<and>
        (\<exists>u v. xs = u @ v \<and> (\<forall>y \<in> set u. clsMatch c y) \<and> matchHere r False v)"
      then obtain u v where "clsMatch c x" "xs = u @ v" "\<forall>y \<in> set u. clsMatch c y"
        "matchHere r False v" by blast
      then have "x # xs = (x # u) @ v \<and> (\<forall>y \<in> set (x # u). clsMatch c y) \<and> matchHere r False v"
        by simp
      then show ?R by blast
    next
      assume "matchHere r False (x # xs)"
      then have "x # xs = [] @ (x # xs) \<and> (\<forall>y \<in> set []. clsMatch c y) \<and>
        matchHere r False (x # xs)" by simp
      then show ?R by blast
    qed
  next
    assume ?R
    then obtain u v where uv: "x # xs = u @ v" "\<forall>y \<in> set u. clsMatch c y" "matchHere r False v"
      by blast
    show ?L
    proof (cases u)
      case Nil
      with uv show ?thesis by simp
    next
      case (Cons y u')
      with uv have "clsMatch c x" "xs = u' @ v" "\<forall>y \<in> set u'. clsMatch c y" by auto
      with uv(3) show ?thesis by blast
    qed
  qed
  finally show ?case .
qed

lemma compiled_no_Bol: "Bol \<notin> set (map rxOfToken ts @ [Eol])"
proof (induction ts)
  case Nil
  show ?case by simp
next
  case (Cons t ts)
  then show ?case by (cases t) auto
qed

lemma single_split:
  "(\<exists>u v. s = u @ v \<and> (\<exists>c. u = [c] \<and> P c) \<and> Q v) = (\<exists>x v. s = x # v \<and> P x \<and> Q v)"
proof
  assume "\<exists>u v. s = u @ v \<and> (\<exists>c. u = [c] \<and> P c) \<and> Q v"
  then obtain u v c where "s = u @ v" "u = [c]" "P c" "Q v" by blast
  then have "s = c # v \<and> P c \<and> Q v" by simp
  then show "\<exists>x v. s = x # v \<and> P x \<and> Q v" by blast
next
  assume "\<exists>x v. s = x # v \<and> P x \<and> Q v"
  then obtain x v where "s = x # v" "P x" "Q v" by blast
  then have "s = [x] @ v \<and> (\<exists>c. [x] = [c] \<and> P c) \<and> Q v" by simp
  then show "\<exists>u v. s = u @ v \<and> (\<exists>c. u = [c] \<and> P c) \<and> Q v" by blast
qed

lemma token_iff:
  assumes "Bol \<notin> set r"
  shows "matchHere (rxOfToken t # r) b s =
          (\<exists>u v. s = u @ v \<and> tokenAccepts t u \<and> matchHere r False v)"
proof (cases t)
  case TStar
  then show ?thesis using star_iff[OF assms, of NotSlash b s] by auto
next
  case TGlobstar
  then show ?thesis using star_iff[OF assms, of Dot b s] by auto
next
  case TQuestion
  then show ?thesis
    using one_iff[of NotSlash r b s]
      single_split[of s "\<lambda>c. c \<noteq> sep" "matchHere r False"] by simp
next
  case (TLiteral c)
  then show ?thesis
    using one_iff[of "Lit c" r b s]
      single_split[of s "\<lambda>x. x = c" "matchHere r False"] by simp
next
  case TGlobstarDir
  have nb: "Bol \<notin> set (Atom (One (Lit CHR ''/'')) # r)" using assms by simp
  have "matchHere (rxOfToken t # r) b s =
      ((\<exists>u v. s = u @ v \<and> (\<forall>x \<in> set u. clsMatch Dot x) \<and>
          matchHere (Atom (One (Lit CHR ''/'')) # r) False v) \<or> matchHere r False s)"
    using TGlobstarDir star_iff[OF nb, of Dot b s] matchHere_flag[OF assms, of b s] by simp
  also have "\<dots> = ((\<exists>u v. s = u @ sep # v \<and> (\<forall>x \<in> set u. \<not> isLineTerminator x) \<and>
          matchHere r False v) \<or> matchHere r False s)"
    by (simp add: one_iff sep_def) blast
  also have "\<dots> = (\<exists>u v. s = u @ v \<and> tokenAccepts TGlobstarDir u \<and> matchHere r False v)"
    (is "?L = ?R")
  proof
    assume ?L
    then show ?R
    proof
      assume "\<exists>u v. s = u @ sep # v \<and> (\<forall>x \<in> set u. \<not> isLineTerminator x) \<and>
          matchHere r False v"
      then obtain u v where "s = u @ sep # v" "\<forall>x \<in> set u. \<not> isLineTerminator x"
        "matchHere r False v" by blast
      then have "s = (u @ [sep]) @ v \<and> tokenAccepts TGlobstarDir (u @ [sep]) \<and>
        matchHere r False v" by simp
      then show ?R by blast
    next
      assume "matchHere r False s"
      then have "s = [] @ s \<and> tokenAccepts TGlobstarDir [] \<and> matchHere r False s" by simp
      then show ?R by blast
    qed
  next
    assume ?R
    then obtain u v where uv: "s = u @ v" "tokenAccepts TGlobstarDir u" "matchHere r False v"
      by blast
    show ?L
    proof (cases "u = []")
      case True
      with uv show ?thesis by simp
    next
      case False
      with uv(2) obtain w where w: "u = w @ [sep]" "\<forall>x \<in> set w. \<not> isLineTerminator x"
        by auto
      with uv have "s = w @ sep # v \<and> (\<forall>x \<in> set w. \<not> isLineTerminator x) \<and>
        matchHere r False v" by simp
      then show ?thesis by blast
    qed
  qed
  finally show ?thesis using TGlobstarDir by simp
qed

lemma compiled_iff:
  "matchHere (map rxOfToken ts @ [Eol]) b s = generates tokenAccepts ts s"
proof (induction ts arbitrary: b s)
  case Nil
  show ?case by simp
next
  case (Cons t ts)
  show ?case
    using token_iff[OF compiled_no_Bol, of t ts b s] Cons.IH by simp
qed

lemma test_anchored: "RegExp_test (Bol # r) s = matchHere r True s"
  by (auto simp: RegExp_test_def list_ex_iff)

lemma globTest_iff: "globTest pattern p = generates tokenAccepts (tokenize pattern) p"
  by (simp add: globTest_def globToRegex_compiles test_anchored compiled_iff)


subsection \<open>Agreement with the grammar of the specification\<close>

lemma segmentI: "sep \<notin> set t \<Longrightarrow> segment (t @ [sep])"
  unfolding segment_def by blast

lemma segments_snoc:
  assumes "\<forall>g \<in> set segs. segment g" and "sep \<notin> set t"
  shows "\<forall>g \<in> set (segs @ [t @ [sep]]). segment g"
  using assms segmentI[of t] by simp

lemma segments_prefix:
  "\<exists>segs t. w = concat segs @ t \<and> (\<forall>g \<in> set segs. segment g) \<and> sep \<notin> set t"
proof (induction w rule: rev_induct)
  case Nil
  show ?case by (rule exI[of _ "[]"], rule exI[of _ "[]"]) simp
next
  case (snoc x xs)
  then obtain segs t where h: "xs = concat segs @ t" "\<forall>g \<in> set segs. segment g" "sep \<notin> set t"
    by (elim exE conjE)
  show ?case
  proof (cases "x = sep")
    case True
    have "xs @ [x] = concat (segs @ [t @ [sep]]) @ []" using h(1) True by simp
    moreover have "\<forall>g \<in> set (segs @ [t @ [sep]]). segment g"
      using segments_snoc[OF h(2) h(3)] .
    ultimately show ?thesis
      by (intro exI[of _ "segs @ [t @ [sep]]"] exI[of _ "[]"]) simp
  next
    case False
    have "xs @ [x] = concat segs @ (t @ [x])" using h(1) by simp
    moreover have "sep \<notin> set (t @ [x])" using h(3) False by simp
    ultimately show ?thesis using h(2)
      by (intro exI[of _ segs] exI[of _ "t @ [x]"]) simp
  qed
qed

lemma segments_shape:
  "(\<exists>segs. u = concat segs \<and> (\<forall>g \<in> set segs. segment g)) = (u = [] \<or> last u = sep)"
proof
  assume "\<exists>segs. u = concat segs \<and> (\<forall>g \<in> set segs. segment g)"
  then obtain segs where u: "u = concat segs" and g: "\<forall>g \<in> set segs. segment g"
    by (elim exE conjE)
  show "u = [] \<or> last u = sep"
  proof (cases segs rule: rev_cases)
    case Nil
    with u show ?thesis by simp
  next
    case (snoc ss g0)
    with g have "segment g0" by simp
    then obtain t where "g0 = t @ [sep]" unfolding segment_def by (elim exE conjE)
    with u snoc show ?thesis by simp
  qed
next
  assume a: "u = [] \<or> last u = sep"
  show "\<exists>segs. u = concat segs \<and> (\<forall>g \<in> set segs. segment g)"
  proof (cases "u = []")
    case True
    then show ?thesis by (intro exI[of _ "[]"]) simp
  next
    case False
    with a have e: "butlast u @ [sep] = u" using append_butlast_last_id[OF False] by simp
    obtain segs t where h: "butlast u = concat segs @ t" "\<forall>g \<in> set segs. segment g"
      "sep \<notin> set t" using segments_prefix[of "butlast u"] by (elim exE conjE)
    have "concat (segs @ [t @ [sep]]) = butlast u @ [sep]" using h(1) by simp
    with e have "u = concat (segs @ [t @ [sep]])" by simp
    moreover have "\<forall>g \<in> set (segs @ [t @ [sep]]). segment g"
      using segments_snoc[OF h(2) h(3)] .
    ultimately show ?thesis by (intro exI[of _ "segs @ [t @ [sep]]"] conjI)
  qed
qed

lemma tokenAccepts_sound: "tokenAccepts t u \<Longrightarrow> tokenMatches t u"
  by (cases t) (auto simp: segments_shape)

lemma tokenAccepts_complete:
  "\<forall>x \<in> set u. \<not> isLineTerminator x \<Longrightarrow> tokenMatches t u \<Longrightarrow> tokenAccepts t u"
proof (cases t)
  case TGlobstarDir
  assume a: "\<forall>x \<in> set u. \<not> isLineTerminator x" and m: "tokenMatches t u"
  with TGlobstarDir have "u = [] \<or> last u = sep" by (simp add: segments_shape)
  then show ?thesis
  proof
    assume "u = []"
    with TGlobstarDir show ?thesis by simp
  next
    assume l: "last u = sep"
    show ?thesis
    proof (cases "u = []")
      case True
      with TGlobstarDir show ?thesis by simp
    next
      case False
      with l have e: "butlast u @ [sep] = u" using append_butlast_last_id[OF False] by simp
      from a have "\<forall>x \<in> set (butlast u). \<not> isLineTerminator x"
        using in_set_butlastD[of _ u] by blast
      with e have "\<exists>w. u = w @ [sep] \<and> (\<forall>x \<in> set w. \<not> isLineTerminator x)"
        by metis
      with TGlobstarDir show ?thesis by simp
    qed
  qed
qed auto

lemma generates_sound: "generates tokenAccepts ts s \<Longrightarrow> generates tokenMatches ts s"
proof (induction ts arbitrary: s)
  case Nil
  then show ?case by simp
next
  case (Cons t ts)
  then obtain u v where "s = u @ v" "tokenAccepts t u" "generates tokenAccepts ts v" by auto
  with Cons.IH[of v] tokenAccepts_sound[of t u] show ?case by auto
qed

lemma generates_complete:
  "\<forall>x \<in> set s. \<not> isLineTerminator x \<Longrightarrow> generates tokenMatches ts s \<Longrightarrow>
   generates tokenAccepts ts s"
proof (induction ts arbitrary: s)
  case Nil
  then show ?case by simp
next
  case (Cons t ts)
  from Cons.prems(2) obtain u v where
    uv: "s = u @ v" "tokenMatches t u" "generates tokenMatches ts v" by auto
  with Cons.prems(1) have "\<forall>x \<in> set u. \<not> isLineTerminator x" "\<forall>x \<in> set v. \<not> isLineTerminator x"
    by auto
  with uv Cons.IH[of v] tokenAccepts_complete[of u t] show ?case by auto
qed

lemma globTest_sound: "globTest pattern p \<Longrightarrow> specMatches pattern p"
  by (simp add: globTest_iff specMatches_def generates_sound)

lemma globTest_exact_without_line_terminators:
  "\<forall>x \<in> set p. \<not> isLineTerminator x \<Longrightarrow> globTest pattern p = specMatches pattern p"
  using generates_sound generates_complete
  by (auto simp: globTest_iff specMatches_def)

text \<open>
  Claim C1 (the matcher accepts exactly the paths the grammar generates).  The compiled
  expression never accepts a path outside the grammar (\<open>globTest_sound\<close>) and accepts every
  generated path that has no line terminator (\<open>globTest_exact_without_line_terminators\<close>).
  It is built without the \<^verbatim>\<open>s\<close> flag, so the dot of \<^verbatim>\<open>**\<close> and \<^verbatim>\<open>**/\<close> stops at a line
  feed: the pattern \<^verbatim>\<open>**\<close> rejects the file name made of \<^verbatim>\<open>a\<close>, a line feed and \<^verbatim>\<open>b\<close>,
  which the grammar generates and which the single star accepts.
\<close>

theorem globstar_rejects_line_feed:
  "\<not> globTest ''**'' [CHR ''a'', LF, CHR ''b''] \<and> specMatches ''**'' [CHR ''a'', LF, CHR ''b'']
   \<and> globTest ''*'' [CHR ''a'', LF, CHR ''b'']"
  by (simp add: globTest_iff specMatches_def isLineTerminator_def LF_def sep_def)

section \<open>Node's path module, POSIX flavour\<close>

text \<open>
  \<^verbatim>\<open>path.normalize\<close>, \<^verbatim>\<open>path.join\<close>, \<^verbatim>\<open>path.resolve\<close> and \<^verbatim>\<open>path.relative\<close> belong to the
  platform, not to the toolkit.  They are modelled on path segments, after the platform's
  documentation: empty and \<^verbatim>\<open>.\<close> segments vanish, \<^verbatim>\<open>..\<close> removes the segment before it, and
  above the root of a relative path it is kept.
\<close>

fun normalizeParts :: "bool \<Rightarrow> string list \<Rightarrow> string list \<Rightarrow> string list" where
  "normalizeParts allowAboveRoot res [] = res"
| "normalizeParts allowAboveRoot res (c # cs) =
     (if c = [] \<or> c = ''.'' then normalizeParts allowAboveRoot res cs
      else if c = ''..'' then
        (if res \<noteq> [] \<and> last res \<noteq> ''..'' then normalizeParts allowAboveRoot (butlast res) cs
         else if allowAboveRoot then normalizeParts allowAboveRoot (res @ [''..'']) cs
         else normalizeParts allowAboveRoot res cs)
      else normalizeParts allowAboveRoot (res @ [c]) cs)"

definition normalizeString :: "string \<Rightarrow> bool \<Rightarrow> string" where
  "normalizeString path allowAboveRoot =
     joinWith ''/'' (normalizeParts allowAboveRoot [] (splitOn sep path))"

definition normalize :: "string \<Rightarrow> string" where
  "normalize path =
     (if path = [] then ''.''
      else
        let isAbsolute = (hd path = sep);
            trailingSeparator = (last path = sep);
            p = normalizeString path (\<not> isAbsolute)
        in if p = [] then (if isAbsolute then ''/'' else if trailingSeparator then ''./'' else ''.'')
           else (if isAbsolute then ''/'' else []) @ p @ (if trailingSeparator then ''/'' else []))"

definition join :: "string list \<Rightarrow> string" where
  "join args =
     (let parts = filter (\<lambda>a. a \<noteq> []) args
      in if parts = [] then ''.'' else normalize (joinWith ''/'' parts))"

fun resolveLoop :: "string list \<Rightarrow> string \<Rightarrow> string \<times> bool" where
  "resolveLoop [] resolvedPath = (resolvedPath, False)"
| "resolveLoop (p # ps) resolvedPath =
     (if p = [] then resolveLoop ps resolvedPath
      else if hd p = sep then (p @ ''/'' @ resolvedPath, True)
      else resolveLoop ps (p @ ''/'' @ resolvedPath))"

definition resolve :: "string \<Rightarrow> string list \<Rightarrow> string" where
  "resolve cwd args =
     (case resolveLoop (rev args @ [cwd]) [] of
        (resolvedPath, resolvedAbsolute) \<Rightarrow>
          let p = normalizeString resolvedPath (\<not> resolvedAbsolute)
          in if resolvedAbsolute then sep # p else if p \<noteq> [] then p else ''.'')"

definition pathParts :: "string \<Rightarrow> string list" where
  "pathParts p = filter (\<lambda>c. c \<noteq> []) (splitOn sep p)"

fun commonPrefix :: "string list \<Rightarrow> string list \<Rightarrow> nat" where
  "commonPrefix (x # xs) (y # ys) = (if x = y then Suc (commonPrefix xs ys) else 0)"
| "commonPrefix _ _ = 0"

definition relative :: "string \<Rightarrow> string \<Rightarrow> string \<Rightarrow> string" where
  "relative cwd from to =
     (if from = to then []
      else
        let f = resolve cwd [from]; t = resolve cwd [to]
        in if f = t then []
           else
             let fs = pathParts f; ts = pathParts t; k = commonPrefix fs ts
             in joinWith ''/'' (replicate (length fs - k) ''..'' @ drop k ts))"


section \<open>The file system\<close>

text \<open>
  A file tree: a regular file, a directory with its entries in the order \<^verbatim>\<open>readdir\<close> lists
  them, a directory that can be entered and not listed, and anything else (a socket, a
  link).  Entry names are single path segments.
\<close>

datatype node = File | Dir "(string \<times> node) list" | Locked "(string \<times> node) list" | Special

datatype errno = ENOENT | ENOTDIR | EACCES

fun isDirectory :: "node \<Rightarrow> bool" where
  "isDirectory (Dir es) = True"
| "isDirectory (Locked es) = True"
| "isDirectory _ = False"

fun isFile :: "node \<Rightarrow> bool" where
  "isFile File = True"
| "isFile _ = False"

fun walk :: "node \<Rightarrow> string list \<Rightarrow> errno + node" where
  "walk n [] = Inr n"
| "walk (Dir es) (c # cs) = (case map_of es c of None \<Rightarrow> Inl ENOENT | Some m \<Rightarrow> walk m cs)"
| "walk (Locked es) (c # cs) = (case map_of es c of None \<Rightarrow> Inl ENOENT | Some m \<Rightarrow> walk m cs)"
| "walk File (c # cs) = Inl ENOTDIR"
| "walk Special (c # cs) = Inl ENOTDIR"


section \<open>The search backend and the host\<close>

text \<open>
  The messages of ripgrep's JSON Lines output, with the fields \<^verbatim>\<open>parseContentOutput\<close> reads:
  \<^verbatim>\<open>data.path.text\<close> of a begin message; \<^verbatim>\<open>data.lines.text\<close>, \<^verbatim>\<open>data.line_number\<close> and the
  \<^verbatim>\<open>start\<close> offsets of \<^verbatim>\<open>data.submatches\<close> of a match message; the first two of a context
  message.  Every other message type is \<open>Other\<close>.
\<close>

datatype rgMessage =
    Begin string
  | Match string nat "nat list"
  | Context string nat
  | Other

text \<open>
  How the child process ends: the \<^verbatim>\<open>close\<close> event with the exit code (\<^verbatim>\<open>null\<close> after a
  signal) and what was read from its two pipes, or the \<^verbatim>\<open>error\<close> event with the error's code
  and message.
\<close>

datatype procOutcome =
    Closed "int option" string string
  | SpawnError string string

text \<open>
  The host: the working directory, the file tree, the process launcher, the syntax check of
  \<^verbatim>\<open>new RegExp(pattern)\<close> (the message of the error it throws, if any) and the reading of one
  output line as a message (\<^const>\<open>None\<close> when \<^verbatim>\<open>JSON.parse\<close> or a field access throws).
\<close>

record world =
  cwd :: string
  root :: node
  spawn :: "string \<Rightarrow> string list \<Rightarrow> procOutcome"
  regExpError :: "string \<Rightarrow> string option"
  JSON_parse :: "string \<Rightarrow> rgMessage option"

section \<open>The glob operation\<close>

text \<open>\<^verbatim>\<open>fs.stat\<close>: the node at a path, or the error code of the exception.\<close>

definition stat :: "world \<Rightarrow> string \<Rightarrow> errno + node" where
  "stat W p = walk (root W) (pathParts (resolve (cwd W) [p]))"

fun errnoText :: "errno \<Rightarrow> string" where
  "errnoText ENOENT = ''ENOENT: no such file or directory''"
| "errnoText ENOTDIR = ''ENOTDIR: not a directory''"
| "errnoText EACCES = ''EACCES: permission denied''"

definition errnoMessage :: "errno \<Rightarrow> string \<Rightarrow> string \<Rightarrow> string" where
  "errnoMessage e syscall p = errnoText e @ '', '' @ syscall @ '' '' @ [CHR 0x27] @ p @ [CHR 0x27]"

text \<open>
  \<^verbatim>\<open>collectFiles\<close>, given the node at \<^verbatim>\<open>dirPath\<close>; \<^verbatim>\<open>readdir\<close> fails on everything that is
  not a directory open for listing, the exception is caught and nothing is collected.
\<close>

fun collectFiles :: "node \<Rightarrow> string \<Rightarrow> string \<Rightarrow> string list"
  and collectEntries :: "(string \<times> node) list \<Rightarrow> string \<Rightarrow> string \<Rightarrow> string list" where
  "collectFiles (Dir es) dirPath basePath = collectEntries es dirPath basePath"
| "collectFiles (Locked es) dirPath basePath = []"
| "collectFiles File dirPath basePath = []"
| "collectFiles Special dirPath basePath = []"
| "collectEntries [] dirPath basePath = []"
| "collectEntries ((name, n) # es) dirPath basePath =
     (let fullPath = join [dirPath, name]
      in (if isDirectory n then collectFiles n fullPath basePath
          else if isFile n then [fullPath]
          else []))
     @ collectEntries es dirPath basePath"

text \<open>\<^verbatim>\<open>{success: true, data}\<close> or \<^verbatim>\<open>{success: false, error}\<close>.\<close>

datatype 'a OperationResult = Success 'a | Failure string

text \<open>
  The operation; every exception inside it is caught by the outer handler and becomes a
  failure with the exception's message.
\<close>

definition glob :: "world \<Rightarrow> string \<Rightarrow> string \<Rightarrow> string option \<Rightarrow> string list OperationResult" where
  "glob W workspace pattern searchPath =
     (if pattern = [] then Failure ''Pattern is required''
      else
        let given = (case searchPath of None \<Rightarrow> False | Some s \<Rightarrow> s \<noteq> []);
            basePath = (if given then join [workspace, the searchPath] else workspace);
            normalizedBasePath = normalize basePath;
            normalizedWorkspace = normalize workspace
        in if \<not> startsWith normalizedBasePath normalizedWorkspace
           then Failure ''Path traversal detected: path must be within workspace''
           else
             (case stat W basePath of
                Inl e \<Rightarrow>
                  if e = ENOENT
                  then Failure (''Directory not found: '' @ (if given then the searchPath else ''.''))
                  else Failure (errnoMessage e ''stat'' basePath)
              | Inr st \<Rightarrow>
                  if \<not> isDirectory st
                  then Failure (''Not a directory: '' @ (if given then the searchPath else ''.''))
                  else
                    let allFiles = collectFiles st basePath workspace
                    in (case globToRegex pattern of
                          None \<Rightarrow> Failure ''Invalid regular expression''
                        | Some regex \<Rightarrow>
                            let matchedFiles =
                                  filter (\<lambda>file.
                                    let relativeToSearch = relative (cwd W) basePath file;
                                        normalizedPath = joinWith ''/'' (splitOn sep relativeToSearch)
                                    in RegExp_test regex normalizedPath) allFiles;
                                results = map (\<lambda>file. relative (cwd W) workspace file) matchedFiles
                            in Success (sort results))))"


section \<open>The grep operation\<close>

subsection \<open>Numbers and white space\<close>

definition digitChar :: "nat \<Rightarrow> char" where
  "digitChar d = char_of (48 + d)"

definition isDigit :: "char \<Rightarrow> bool" where
  "isDigit c = (48 \<le> (of_char c :: nat) \<and> (of_char c :: nat) \<le> 57)"

definition digitVal :: "char \<Rightarrow> nat" where
  "digitVal c = of_char c - 48"

text \<open>\<^verbatim>\<open>String(n)\<close> for an integer.\<close>

function showNat :: "nat \<Rightarrow> string" where
  "showNat n = (if n < 10 then [digitChar n] else showNat (n div 10) @ [digitChar (n mod 10)])"
  by pat_completeness auto
termination
  by (relation "measure id") auto

declare showNat.simps [simp del]

definition showInt :: "int \<Rightarrow> string" where
  "showInt i = (if i < 0 then CHR ''-'' # showNat (nat (- i)) else showNat (nat i))"

text \<open>White space and line terminators, as \<^verbatim>\<open>trim\<close>, \<^verbatim>\<open>trimEnd\<close> and \<^verbatim>\<open>parseInt\<close> skip them.\<close>

definition isWhiteSpace :: "char \<Rightarrow> bool" where
  "isWhiteSpace c = (c \<in> {CHR 0x09, CHR 0x0A, CHR 0x0B, CHR 0x0C, CHR 0x0D, CHR 0x20, CHR 0xA0})"

definition trimEnd :: "string \<Rightarrow> string" where
  "trimEnd s = rev (dropWhile isWhiteSpace (rev s))"

definition trim :: "string \<Rightarrow> string" where
  "trim s = dropWhile isWhiteSpace (trimEnd s)"

text \<open>
  A value of the type \<^verbatim>\<open>number\<close> that \<^verbatim>\<open>parseInt\<close> can return: \<^verbatim>\<open>NaN\<close>, a finite double with an
  integer value, given by its sign (true is negative, so that \<^verbatim>\<open>-0\<close> is a value of its own) and
  its magnitude, or an infinity with its sign.
\<close>

datatype number = NaN | Finite bool nat | Infinity bool

definition isNaN :: "number \<Rightarrow> bool" where
  "isNaN x = (x = NaN)"

function bitLength :: "nat \<Rightarrow> nat" where
  "bitLength n = (if n = 0 then 0 else Suc (bitLength (n div 2)))"
  by pat_completeness auto
termination
  by (relation "measure id") auto

declare bitLength.simps [simp del]

text \<open>
  The double nearest to a natural number, ties to the even significand of 53 bits;
  \<^const>\<open>None\<close> when the rounded value is beyond the largest double.
\<close>

definition toDouble :: "nat \<Rightarrow> nat option" where
  "toDouble n =
     (let e = bitLength n - 53
      in if e = 0 then Some n
         else
           (let q = n div 2 ^ e;
                r = n mod 2 ^ e;
                half = 2 ^ (e - 1);
                m = (if half < r \<or> (r = half \<and> odd q) then Suc q else q)
            in if 2 ^ 1024 \<le> m * 2 ^ e then None else Some (m * 2 ^ e)))"

definition toNumber :: "bool \<Rightarrow> nat \<Rightarrow> number" where
  "toNumber negative n =
     (case toDouble n of None \<Rightarrow> Infinity negative | Some m \<Rightarrow> Finite negative m)"

text \<open>
  \<^verbatim>\<open>parseInt(s, 10)\<close>: leading white space, an optional sign, the longest run of decimal
  digits, and the number value of their integer.
\<close>

definition decimal :: "string \<Rightarrow> nat" where
  "decimal ds = foldl (\<lambda>a d. 10 * a + digitVal d) 0 ds"

definition parseInt10 :: "string \<Rightarrow> number" where
  "parseInt10 s =
     (let s1 = dropWhile isWhiteSpace s;
          negative = (s1 \<noteq> [] \<and> hd s1 = CHR ''-'');
          s2 = (if s1 \<noteq> [] \<and> (hd s1 = CHR ''-'' \<or> hd s1 = CHR ''+'') then tl s1 else s1);
          ds = takeWhile isDigit s2
      in if ds = [] then NaN else toNumber negative (decimal ds))"

text \<open>\<^verbatim>\<open>s.lastIndexOf(c)\<close>; \<^const>\<open>None\<close> is \<open>-1\<close>.\<close>

definition lastIndexOf :: "char \<Rightarrow> string \<Rightarrow> nat option" where
  "lastIndexOf c s =
     (if c \<in> set s then Some (length s - Suc (length (takeWhile (\<lambda>x. x \<noteq> c) (rev s)))) else None)"

subsection \<open>Options and results\<close>

datatype outputMode = content_mode | files_with_matches | count_mode

record GrepOptions =
  pattern :: string
  path :: "string option"
  globFilter :: "string option"
  fileType :: "string option"
  output_mode :: "outputMode option"
  opt_i :: "bool option"
  opt_n :: "bool option"
  opt_B :: "int option"
  opt_A :: "int option"
  opt_C :: "int option"
  head_limit :: "int option"
  multiline :: "bool option"

record GrepMatch =
  line :: nat
  content :: string
  column :: "nat option"
  beforeContext :: "string list option"
  afterContext :: "string list option"

record GrepContentResult =
  filePath :: string
  matches :: "GrepMatch list"

record GrepCountResult =
  countPath :: string
  count :: number

datatype GrepResult =
    ContentData "GrepContentResult list"
  | FilesData "string list"
  | CountData "GrepCountResult list"

text \<open>Truthiness of an optional string and of an optional boolean.\<close>

fun truthyStr :: "string option \<Rightarrow> bool" where
  "truthyStr None = False"
| "truthyStr (Some s) = (s \<noteq> [])"

fun truthyBool :: "bool option \<Rightarrow> bool" where
  "truthyBool None = False"
| "truthyBool (Some b) = b"

subsection \<open>Arguments and execution\<close>

definition buildRipgrepArgs :: "GrepOptions \<Rightarrow> outputMode \<Rightarrow> string list" where
  "buildRipgrepArgs options outputMode =
     (if outputMode \<noteq> count_mode \<and> outputMode \<noteq> files_with_matches then [''--json''] else [])
     @ (if truthyBool (opt_i options) then [''--ignore-case''] else [])
     @ (if truthyBool (multiline options) then [''--multiline'', ''--multiline-dotall''] else [])
     @ (case opt_C options of
          Some c \<Rightarrow> [''-C'', showInt c]
        | None \<Rightarrow>
            (case opt_B options of Some b \<Rightarrow> [''-B'', showInt b] | None \<Rightarrow> [])
            @ (case opt_A options of Some a \<Rightarrow> [''-A'', showInt a] | None \<Rightarrow> []))
     @ (if truthyStr (globFilter options) then [''--glob'', the (globFilter options)] else [])
     @ (if truthyStr (fileType options) then [''--type'', the (fileType options)] else [])
     @ (case head_limit options of Some h \<Rightarrow> [''--max-count'', showInt h] | None \<Rightarrow> [])
     @ (if outputMode = files_with_matches then [''--files-with-matches'']
        else if outputMode = count_mode then [''--count''] else [])"

fun showCode :: "int option \<Rightarrow> string" where
  "showCode None = ''null''"
| "showCode (Some c) = showInt c"

definition notInstalled :: string where
  "notInstalled = ''ripgrep (rg) is not installed or not in PATH''"

text \<open>The promise of \<^verbatim>\<open>executeRipgrep\<close>: \<^const>\<open>Inr\<close> the output it resolves to, \<^const>\<open>Inl\<close> the
  message of the error it rejects with.\<close>

definition executeRipgrep :: "world \<Rightarrow> string \<Rightarrow> string \<Rightarrow> string list \<Rightarrow> string + string" where
  "executeRipgrep W pat searchPath args =
     (case spawn W ''rg'' (args @ [''--'', pat, searchPath]) of
        Closed code out err \<Rightarrow>
          if code = Some 0 \<or> code = Some 1 then Inr out
          else Inl (if err \<noteq> [] then err else ''ripgrep exited with code '' @ showCode code)
      | SpawnError code msg \<Rightarrow>
          if code = ''ENOENT'' then Inl notInstalled else Inl msg)"

subsection \<open>Reading the output\<close>

definition parseFilesWithMatches :: "world \<Rightarrow> string list \<Rightarrow> string \<Rightarrow> GrepResult" where
  "parseFilesWithMatches W lines workspace =
     FilesData (map (\<lambda>l. relative (cwd W) workspace (resolve (cwd W) [workspace, l]))
                  (filter (\<lambda>l. trim l \<noteq> []) lines))"

fun countLoop :: "world \<Rightarrow> string list \<Rightarrow> string \<Rightarrow> GrepCountResult list" where
  "countLoop W [] workspace = []"
| "countLoop W (l # ls) workspace =
     (case lastIndexOf CHR '':'' l of
        None \<Rightarrow> countLoop W ls workspace
      | Some lastColonIndex \<Rightarrow>
          (let filePath = take lastColonIndex l;
               countStr = drop (Suc lastColonIndex) l;
               n = parseInt10 countStr
           in if isNaN n then countLoop W ls workspace
              else
                (let absolutePath = resolve (cwd W) [workspace, filePath];
                     relativePath = relative (cwd W) workspace absolutePath
                 in \<lparr> countPath = relativePath, count = n \<rparr> # countLoop W ls workspace)))"

definition parseCountOutput :: "world \<Rightarrow> string list \<Rightarrow> string \<Rightarrow> GrepResult" where
  "parseCountOutput W lines workspace = CountData (countLoop W lines workspace)"

text \<open>
  The state of the loop of \<^verbatim>\<open>parseContentOutput\<close>: the map from file to matches, in
  insertion order, and the current file (\<^const>\<open>None\<close> is \<^verbatim>\<open>null\<close>).  The context map is written
  and never read, so it is left out.
\<close>

type_synonym contentState = "(string \<times> GrepMatch list) list \<times> string option"

definition pushMatch :: "string \<Rightarrow> GrepMatch \<Rightarrow> (string \<times> GrepMatch list) list \<Rightarrow>
    (string \<times> GrepMatch list) list" where
  "pushMatch f m fileMap = map (\<lambda>(k, ms). if k = f then (k, ms @ [m]) else (k, ms)) fileMap"

text \<open>The record built for one match message.\<close>

definition matchRecord :: "GrepOptions \<Rightarrow> string \<Rightarrow> nat \<Rightarrow> nat list \<Rightarrow> GrepMatch" where
  "matchRecord options text lineNumber submatches =
     (let lineText = trimEnd text;
          col = (if length submatches > 0 then hd submatches + 1 else 1)
      in \<lparr> line = lineNumber, content = lineText,
           column = (if opt_n options \<noteq> Some False then Some col else None),
           beforeContext = None, afterContext = None \<rparr>)"

text \<open>
  One turn of the loop.  A line that makes the body throw leaves the state as it is; so do a
  context message, which only touches the context map, and a match message while the current
  file is not truthy (\<^verbatim>\<open>null\<close> or the empty string).
\<close>

definition contentStep :: "world \<Rightarrow> string \<Rightarrow> GrepOptions \<Rightarrow> contentState \<Rightarrow> string \<Rightarrow> contentState" where
  "contentStep W workspace options st l =
     (case st of (fileMap, currentFile) \<Rightarrow>
        (case JSON_parse W l of
           None \<Rightarrow> st
         | Some (Begin absolutePath) \<Rightarrow>
             (let f = relative (cwd W) workspace absolutePath
              in (if f \<in> set (map fst fileMap) then fileMap else fileMap @ [(f, [])], Some f))
         | Some (Match text lineNumber submatches) \<Rightarrow>
             (if truthyStr currentFile then
                (pushMatch (the currentFile) (matchRecord options text lineNumber submatches) fileMap,
                 currentFile)
              else st)
         | Some (Context text lineNumber) \<Rightarrow> st
         | Some Other \<Rightarrow> st))"

definition contentLoop :: "world \<Rightarrow> string list \<Rightarrow> string \<Rightarrow> GrepOptions \<Rightarrow> contentState" where
  "contentLoop W lines workspace options = foldl (contentStep W workspace options) ([], None) lines"

definition contentGroups :: "(string \<times> GrepMatch list) list \<Rightarrow> GrepContentResult list" where
  "contentGroups fileMap =
     map (\<lambda>(f, ms). \<lparr> filePath = f, matches = ms \<rparr>) (filter (\<lambda>(f, ms). length ms > 0) fileMap)"

definition parseContentOutput :: "world \<Rightarrow> string list \<Rightarrow> string \<Rightarrow> GrepOptions \<Rightarrow> GrepResult" where
  "parseContentOutput W lines workspace options =
     ContentData (contentGroups (fst (contentLoop W lines workspace options)))"

definition parseRipgrepOutput :: "world \<Rightarrow> string \<Rightarrow> outputMode \<Rightarrow> string \<Rightarrow> GrepOptions \<Rightarrow> GrepResult" where
  "parseRipgrepOutput W output outputMode workspace options =
     (let lines = filter (\<lambda>l. length l > 0) (splitOn LF (trim output))
      in if outputMode = files_with_matches then parseFilesWithMatches W lines workspace
         else if outputMode = count_mode then parseCountOutput W lines workspace
         else parseContentOutput W lines workspace options)"

definition grep :: "world \<Rightarrow> string \<Rightarrow> GrepOptions \<Rightarrow> GrepResult OperationResult" where
  "grep W workspace options =
     (let outputMode = (case output_mode options of None \<Rightarrow> files_with_matches | Some m \<Rightarrow> m)
      in if pattern options = [] then Failure ''pattern is required''
         else
           (case regExpError W (pattern options) of
              Some msg \<Rightarrow> Failure (''Invalid regex pattern: '' @ msg)
            | None \<Rightarrow>
                (let args = buildRipgrepArgs options outputMode;
                     searchPath = (if truthyStr (path options)
                                   then join [workspace, the (path options)] else workspace);
                     resolvedSearchPath = resolve (cwd W) [searchPath];
                     resolvedWorkspace = resolve (cwd W) [workspace]
                 in if \<not> startsWith resolvedSearchPath resolvedWorkspace
                    then Failure ''Search path must be within workspace''
                    else
                      (case executeRipgrep W (pattern options) searchPath args of
                         Inl msg \<Rightarrow> Failure msg
                       | Inr rgOutput \<Rightarrow>
                           Success (parseRipgrepOutput W rgOutput outputMode workspace options)))))"


section \<open>A concrete host\<close>

text \<open>
  A small workspace \<^verbatim>\<open>/tmp/ws\<close> with a sibling directory \<^verbatim>\<open>/tmp/ws2\<close>, a reader for a handful
  of output lines, and a backend that ends the way it is told to.
\<close>

definition demoTree :: node where
  "demoTree = Dir [(''tmp'', Dir [
       (''ws'', Dir [(''file1.txt'', File), (''README.md'', File),
           (''subdir'', Dir [(''code.ts'', File), (''deep'', Dir [(''file.ts'', File)])])]),
       (''ws2'', Dir [(''secret.txt'', File)])])]"

definition demoParse :: "string \<Rightarrow> rgMessage option" where
  "demoParse = map_of [
     (''begin file1'', Begin ''/tmp/ws/file1.txt''),
     (''begin code'', Begin ''/tmp/ws/subdir/code.ts''),
     (''begin workspace'', Begin ''/tmp/ws''),
     (''match 4'', Match ''Line four has the word FINDME in it.  '' 4 [23]),
     (''match 10'', Match ''// FINDME: This is a special comment'' 10 [3]),
     (''context 3'', Context ''It contains multiple lines.'' 3),
     (''end'', Other)]"

definition demoHost :: "procOutcome \<Rightarrow> world" where
  "demoHost outcome = \<lparr> cwd = ''/'', root = demoTree, spawn = (\<lambda>command args. outcome),
     regExpError = (\<lambda>p. if p = ''[invalid'' then Some ''Unterminated character class'' else None),
     JSON_parse = demoParse \<rparr>"

definition noMatches :: procOutcome where
  "noMatches = Closed (Some 1) [] []"

definition demoOptions :: GrepOptions where
  "demoOptions = \<lparr> pattern = ''FINDME'', path = None, globFilter = None, fileType = None,
     output_mode = None, opt_i = None, opt_n = None, opt_B = None, opt_A = None, opt_C = None,
     head_limit = None, multiline = None \<rparr>"

section \<open>Properties of the grep operation\<close>

subsection \<open>Exit codes\<close>

definition searchPathOf :: "string \<Rightarrow> GrepOptions \<Rightarrow> string" where
  "searchPathOf workspace options =
     (if truthyStr (path options) then join [workspace, the (path options)] else workspace)"

definition modeOf :: "GrepOptions \<Rightarrow> outputMode" where
  "modeOf options = (case output_mode options of None \<Rightarrow> files_with_matches | Some m \<Rightarrow> m)"

definition backendCall :: "world \<Rightarrow> string \<Rightarrow> GrepOptions \<Rightarrow> procOutcome" where
  "backendCall W workspace options =
     spawn W ''rg'' (buildRipgrepArgs options (modeOf options)
        @ [''--'', pattern options, searchPathOf workspace options])"

definition reachesBackend :: "world \<Rightarrow> string \<Rightarrow> GrepOptions \<Rightarrow> bool" where
  "reachesBackend W workspace options =
     (pattern options \<noteq> [] \<and> regExpError W (pattern options) = None \<and>
      startsWith (resolve (cwd W) [searchPathOf workspace options]) (resolve (cwd W) [workspace]))"

lemma grep_after_checks:
  "reachesBackend W workspace options \<Longrightarrow>
   grep W workspace options =
     (case executeRipgrep W (pattern options) (searchPathOf workspace options)
             (buildRipgrepArgs options (modeOf options)) of
        Inl msg \<Rightarrow> Failure msg
      | Inr out \<Rightarrow> Success (parseRipgrepOutput W out (modeOf options) workspace options))"
  by (simp add: grep_def reachesBackend_def searchPathOf_def modeOf_def Let_def split: sum.splits)

lemma exit_message_not_notInstalled:
  "''ripgrep exited with code '' @ showCode code \<noteq> notInstalled"
  by (simp add: notInstalled_def)

lemma grep_success_needs_exit:
  "grep W workspace options = Success r \<Longrightarrow>
   \<exists>code out err. backendCall W workspace options = Closed code out err \<and>
     (code = Some 0 \<or> code = Some 1) \<and>
     r = parseRipgrepOutput W out (modeOf options) workspace options"
  by (auto simp: grep_def executeRipgrep_def backendCall_def modeOf_def searchPathOf_def Let_def
      split: if_splits option.splits sum.splits procOutcome.splits)

text \<open>
  Claim C7.  Once the checks on the pattern and the search path are passed, the result of
  \<^verbatim>\<open>grep\<close> is decided by how the backend ends: exit code 0 or 1 gives a success whose payload
  is the parsed output; every other exit code gives a failure carrying the backend's error
  output, or \<^verbatim>\<open>ripgrep exited with code N\<close> when there is none; a launch that fails with
  \<^verbatim>\<open>ENOENT\<close> gives a failure with a message of its own, different from the exit-code message.
  Conversely a success is only ever returned after exit code 0 or 1, with the parsed output
  of that run as payload.
\<close>

theorem backend_exit_codes:
  "(reachesBackend W workspace options \<and> backendCall W workspace options = Closed code out err \<longrightarrow>
      (if code = Some 0 \<or> code = Some 1
       then grep W workspace options =
              Success (parseRipgrepOutput W out (modeOf options) workspace options)
       else grep W workspace options =
              Failure (if err \<noteq> [] then err else ''ripgrep exited with code '' @ showCode code)
            \<and> ''ripgrep exited with code '' @ showCode code \<noteq> notInstalled))
   \<and> (reachesBackend W workspace options \<and>
        backendCall W workspace options = SpawnError ''ENOENT'' msg \<longrightarrow>
      grep W workspace options = Failure notInstalled)
   \<and> (grep W workspace options = Success r \<longrightarrow>
        (\<exists>out err. (backendCall W workspace options = Closed (Some 0) out err \<or>
                    backendCall W workspace options = Closed (Some 1) out err) \<and>
           r = parseRipgrepOutput W out (modeOf options) workspace options))"
proof (intro conjI impI)
  assume a: "reachesBackend W workspace options \<and> backendCall W workspace options = Closed code out err"
  then show "if code = Some 0 \<or> code = Some 1
       then grep W workspace options =
              Success (parseRipgrepOutput W out (modeOf options) workspace options)
       else grep W workspace options =
              Failure (if err \<noteq> [] then err else ''ripgrep exited with code '' @ showCode code)
            \<and> ''ripgrep exited with code '' @ showCode code \<noteq> notInstalled"
    using exit_message_not_notInstalled[of code]
    by (auto simp: grep_after_checks executeRipgrep_def backendCall_def)
next
  assume "reachesBackend W workspace options \<and>
        backendCall W workspace options = SpawnError ''ENOENT'' msg"
  then show "grep W workspace options = Failure notInstalled"
    by (auto simp: grep_after_checks executeRipgrep_def backendCall_def)
next
  assume "grep W workspace options = Success r"
  from grep_success_needs_exit[OF this]
  show "\<exists>out err. (backendCall W workspace options = Closed (Some 0) out err \<or>
                    backendCall W workspace options = Closed (Some 1) out err) \<and>
           r = parseRipgrepOutput W out (modeOf options) workspace options"
    by blast
qed

theorem backend_exit_codes_witness:
  "reachesBackend (demoHost (Closed (Some 2) [] ''rg: boom'')) ''/tmp/ws'' demoOptions
   \<and> grep (demoHost (Closed (Some 2) [] ''rg: boom'')) ''/tmp/ws'' demoOptions = Failure ''rg: boom''
   \<and> grep (demoHost (Closed (Some 0) ''/tmp/ws/file1.txt'' [])) ''/tmp/ws'' demoOptions
       = Success (FilesData [''file1.txt''])
   \<and> grep (demoHost (SpawnError ''ENOENT'' ''spawn rg ENOENT'')) ''/tmp/ws'' demoOptions
       = Failure notInstalled"
proof -
  have r: "reachesBackend (demoHost outcome) ''/tmp/ws'' demoOptions" for outcome
  proof -
    have "startsWith (resolve ''/'' [''/tmp/ws'']) (resolve ''/'' [''/tmp/ws''])"
      by (simp add: startsWith_def)
    then show ?thesis
      by (simp add: reachesBackend_def demoHost_def demoOptions_def searchPathOf_def)
  qed
  have c: "backendCall (demoHost outcome) ''/tmp/ws'' demoOptions = outcome" for outcome
    by (simp add: backendCall_def demoHost_def)
  have p: "parseRipgrepOutput (demoHost (Closed (Some 0) ''/tmp/ws/file1.txt'' []))
      ''/tmp/ws/file1.txt'' (modeOf demoOptions) ''/tmp/ws'' demoOptions = FilesData [''file1.txt'']"
    by code_simp
  have g2: "grep (demoHost (Closed (Some 2) [] ''rg: boom'')) ''/tmp/ws'' demoOptions
      = Failure ''rg: boom''"
    using backend_exit_codes[where W = "demoHost (Closed (Some 2) [] ''rg: boom'')"
        and workspace = "''/tmp/ws''" and options = demoOptions
        and code = "Some 2" and out = "[]" and err = "''rg: boom''", THEN conjunct1] r c
    by simp
  have g0: "grep (demoHost (Closed (Some 0) ''/tmp/ws/file1.txt'' [])) ''/tmp/ws'' demoOptions
      = Success (FilesData [''file1.txt''])"
    using backend_exit_codes[where W = "demoHost (Closed (Some 0) ''/tmp/ws/file1.txt'' [])"
        and workspace = "''/tmp/ws''" and options = demoOptions
        and code = "Some 0" and out = "''/tmp/ws/file1.txt''" and err = "[]", THEN conjunct1] r c p
    by simp
  have ge: "grep (demoHost (SpawnError ''ENOENT'' ''spawn rg ENOENT'')) ''/tmp/ws'' demoOptions
      = Failure notInstalled"
    using backend_exit_codes[where W = "demoHost (SpawnError ''ENOENT'' ''spawn rg ENOENT'')"
        and workspace = "''/tmp/ws''" and options = demoOptions
        and msg = "''spawn rg ENOENT''", THEN conjunct2, THEN conjunct1] r c
    by simp
  show ?thesis using r g2 g0 ge by (intro conjI)
qed

subsection \<open>Content mode\<close>

fun contentData :: "GrepResult \<Rightarrow> GrepContentResult list" where
  "contentData (ContentData d) = d"
| "contentData _ = []"

definition dropColumn :: "GrepMatch \<Rightarrow> GrepMatch" where
  "dropColumn m = m\<lparr> column := None \<rparr>"

definition mapMatches :: "(GrepMatch \<Rightarrow> GrepMatch) \<Rightarrow> GrepContentResult \<Rightarrow> GrepContentResult" where
  "mapMatches h g = g\<lparr> matches := map h (matches g) \<rparr>"

definition mapFileMap :: "(GrepMatch \<Rightarrow> GrepMatch) \<Rightarrow> (string \<times> GrepMatch list) list \<Rightarrow>
    (string \<times> GrepMatch list) list" where
  "mapFileMap h fileMap = map (\<lambda>(k, ms). (k, map h ms)) fileMap"

definition allMatches :: "(string \<times> GrepMatch list) list \<Rightarrow> GrepMatch list" where
  "allMatches fileMap = concat (map snd fileMap)"

definition columnChoice :: "GrepOptions \<Rightarrow> GrepMatch \<Rightarrow> GrepMatch" where
  "columnChoice options = (if opt_n options = Some False then dropColumn else id)"

fun isContext :: "rgMessage option \<Rightarrow> bool" where
  "isContext (Some (Context t n)) = True"
| "isContext _ = False"

lemma contentLoop_snoc:
  "contentLoop W (ls @ [l]) workspace options =
     contentStep W workspace options (contentLoop W ls workspace options) l"
  by (simp add: contentLoop_def)

lemma keys_mapFileMap: "fst ` set (mapFileMap h fm) = fst ` set fm"
  by (induction fm) (auto simp: mapFileMap_def)

lemma pushMatch_mapFileMap:
  "pushMatch f (h m) (mapFileMap h fm) = mapFileMap h (pushMatch f m fm)"
  by (induction fm) (auto simp: mapFileMap_def pushMatch_def)

lemma mapFileMap_snoc: "mapFileMap h (fm @ [(f, [])]) = mapFileMap h fm @ [(f, [])]"
  by (simp add: mapFileMap_def)

lemma contentGroups_mapFileMap:
  "contentGroups (mapFileMap h fm) = map (mapMatches h) (contentGroups fm)"
  by (induction fm) (auto simp: contentGroups_def mapFileMap_def mapMatches_def)

lemma columnChoice_matchRecord:
  "opt_n options' \<noteq> Some False \<Longrightarrow>
   columnChoice options (matchRecord options' t n sms) = matchRecord options t n sms"
  by (simp add: columnChoice_def matchRecord_def dropColumn_def Let_def)

lemma step_column:
  assumes "opt_n options' \<noteq> Some False"
  shows "contentStep W workspace options (mapFileMap (columnChoice options) fm, c) l =
          (mapFileMap (columnChoice options) (fst (contentStep W workspace options' (fm, c) l)),
           snd (contentStep W workspace options' (fm, c) l))"
proof (cases "JSON_parse W l")
  case None
  then show ?thesis by (simp add: contentStep_def)
next
  case (Some msg)
  show ?thesis
  proof (cases msg)
    case (Begin p)
    with Some show ?thesis
      by (simp add: contentStep_def keys_mapFileMap mapFileMap_snoc Let_def)
  next
    case (Match t n sms)
    with Some show ?thesis
      using pushMatch_mapFileMap[of "the c" "columnChoice options" "matchRecord options' t n sms" fm]
        columnChoice_matchRecord[OF assms, of options t n sms]
      by (simp add: contentStep_def)
  next
    case (Context t n)
    with Some show ?thesis by (simp add: contentStep_def)
  next
    case Other
    with Some show ?thesis by (simp add: contentStep_def)
  qed
qed

lemma loop_column:
  assumes "opt_n options' \<noteq> Some False"
  shows "contentLoop W ls workspace options =
          (mapFileMap (columnChoice options) (fst (contentLoop W ls workspace options')),
           snd (contentLoop W ls workspace options'))"
proof (induction ls rule: rev_induct)
  case Nil
  show ?case by (simp add: contentLoop_def mapFileMap_def)
next
  case (snoc l ls)
  show ?case
    using step_column[OF assms, of W workspace options
        "fst (contentLoop W ls workspace options')" "snd (contentLoop W ls workspace options')" l]
    by (simp add: contentLoop_snoc snoc.IH)
qed

lemma allMatches_pushMatch:
  "set (allMatches (pushMatch f m fm)) \<subseteq> insert m (set (allMatches fm))"
  by (induction fm) (auto simp: allMatches_def pushMatch_def split: if_splits)

lemma allMatches_snoc: "allMatches (fm @ [(f, [])]) = allMatches fm"
  by (simp add: allMatches_def)

text \<open>Every record in the map was built by \<^const>\<open>matchRecord\<close> from a match message of the input.\<close>

lemma step_records:
  "set (allMatches (fst (contentStep W workspace options (fm, c) l)))
     \<subseteq> set (allMatches fm) \<union> {m. \<exists>t n sms. m = matchRecord options t n sms}"
proof (cases "JSON_parse W l")
  case None
  then show ?thesis by (simp add: contentStep_def)
next
  case (Some msg)
  show ?thesis
  proof (cases msg)
    case (Begin p)
    with Some show ?thesis by (auto simp: contentStep_def Let_def allMatches_snoc)
  next
    case (Match t n sms)
    with Some show ?thesis
      using allMatches_pushMatch[of "the c" "matchRecord options t n sms" fm]
      by (auto simp: contentStep_def)
  next
    case (Context t n)
    with Some show ?thesis by (simp add: contentStep_def)
  next
    case Other
    with Some show ?thesis by (simp add: contentStep_def)
  qed
qed

lemma loop_records:
  "set (allMatches (fst (contentLoop W ls workspace options)))
     \<subseteq> {m. \<exists>t n sms. m = matchRecord options t n sms}"
proof (induction ls rule: rev_induct)
  case Nil
  show ?case by (simp add: contentLoop_def allMatches_def)
next
  case (snoc l ls)
  show ?case
    using step_records[of W workspace options "fst (contentLoop W ls workspace options)"
        "snd (contentLoop W ls workspace options)" l] snoc.IH
    by (auto simp: contentLoop_snoc)
qed

lemma groups_records:
  "g \<in> set (contentGroups fm) \<Longrightarrow> m \<in> set (matches g) \<Longrightarrow> m \<in> set (allMatches fm)"
  by (force simp: contentGroups_def allMatches_def)

lemma result_records:
  assumes "g \<in> set (contentData (parseContentOutput W ls workspace options))"
    and "m \<in> set (matches g)"
  shows "\<exists>t n sms. m = matchRecord options t n sms"
  using groups_records[of g "fst (contentLoop W ls workspace options)" m] assms
    loop_records[of W ls workspace options]
  by (auto simp: parseContentOutput_def)

lemma line_content_dropColumn:
  "map (\<lambda>m. (line m, content m)) (map (if b then dropColumn else id) ms) =
   map (\<lambda>m. (line m, content m)) ms"
  by (induction ms) (auto simp: dropColumn_def)

definition lineAndContent :: "GrepContentResult \<Rightarrow> string \<times> (nat \<times> string) list" where
  "lineAndContent g = (filePath g, map (\<lambda>m. (line m, content m)) (matches g))"

lemma lineAndContent_mapMatches:
  "lineAndContent (mapMatches (if b then dropColumn else id) g) = lineAndContent g"
  by (cases b) (simp_all add: lineAndContent_def mapMatches_def dropColumn_def comp_def)

text \<open>
  Claim C10.  The result for any options is the result for options whose \<^verbatim>\<open>-n\<close> is not
  \<^verbatim>\<open>false\<close> (unset or \<^verbatim>\<open>true\<close>, everything else arbitrary), with the column removed from every
  record exactly when \<^verbatim>\<open>-n\<close> is \<^verbatim>\<open>false\<close>: files, line numbers and contents are the same, and
  with \<^verbatim>\<open>-n\<close> other than \<^verbatim>\<open>false\<close> every record has its column.
\<close>

theorem line_number_option_only_drops_column:
  assumes "opt_n options' \<noteq> Some False"
  shows "contentData (parseContentOutput W ls workspace options) =
           map (mapMatches (if opt_n options = Some False then dropColumn else id))
             (contentData (parseContentOutput W ls workspace options'))
       \<and> map lineAndContent (contentData (parseContentOutput W ls workspace options)) =
           map lineAndContent (contentData (parseContentOutput W ls workspace options'))
       \<and> (\<forall>g \<in> set (contentData (parseContentOutput W ls workspace options')).
            \<forall>m \<in> set (matches g). column m \<noteq> None)"
proof (intro conjI)
  show eq: "contentData (parseContentOutput W ls workspace options) =
           map (mapMatches (if opt_n options = Some False then dropColumn else id))
             (contentData (parseContentOutput W ls workspace options'))"
    using loop_column[OF assms, of W ls workspace options]
    by (simp add: parseContentOutput_def contentGroups_mapFileMap columnChoice_def)
  show "map lineAndContent (contentData (parseContentOutput W ls workspace options)) =
           map lineAndContent (contentData (parseContentOutput W ls workspace options'))"
    unfolding eq by (simp add: comp_def lineAndContent_mapMatches)
  show "\<forall>g \<in> set (contentData (parseContentOutput W ls workspace options')).
            \<forall>m \<in> set (matches g). column m \<noteq> None"
  proof (intro ballI)
    fix g m
    assume "g \<in> set (contentData (parseContentOutput W ls workspace options'))"
      and "m \<in> set (matches g)"
    then obtain t n sms where "m = matchRecord options' t n sms"
      using result_records by blast
    with assms show "column m \<noteq> None" by (simp add: matchRecord_def Let_def)
  qed
qed

theorem line_number_option_only_drops_column_witness:
  "opt_n demoOptions \<noteq> Some False
   \<and> contentData (parseContentOutput (demoHost noMatches) [''begin file1'', ''match 4'']
        ''/tmp/ws'' (demoOptions\<lparr> opt_n := Some False \<rparr>))
     = [\<lparr> filePath = ''file1.txt'', matches = [\<lparr> line = 4,
           content = ''Line four has the word FINDME in it.'', column = None,
           beforeContext = None, afterContext = None \<rparr>] \<rparr>]
   \<and> contentData (parseContentOutput (demoHost noMatches) [''begin file1'', ''match 4'']
        ''/tmp/ws'' demoOptions)
     = [\<lparr> filePath = ''file1.txt'', matches = [\<lparr> line = 4,
           content = ''Line four has the word FINDME in it.'', column = Some 24,
           beforeContext = None, afterContext = None \<rparr>] \<rparr>]"
proof -
  have h: "opt_n demoOptions \<noteq> Some False" by (simp add: demoOptions_def)
  have e: "contentData (parseContentOutput (demoHost noMatches) [''begin file1'', ''match 4'']
        ''/tmp/ws'' demoOptions)
     = [\<lparr> filePath = ''file1.txt'', matches = [\<lparr> line = 4,
           content = ''Line four has the word FINDME in it.'', column = Some 24,
           beforeContext = None, afterContext = None \<rparr>] \<rparr>]"
    by code_simp
  show ?thesis
    using h e line_number_option_only_drops_column[OF h, of "demoHost noMatches"
        "[''begin file1'', ''match 4'']" "''/tmp/ws''" "demoOptions\<lparr> opt_n := Some False \<rparr>"]
    by (simp add: mapMatches_def dropColumn_def)
qed

text \<open>
  Claim C6 as it is written fails: a context line before a match, with one line of leading
  context asked for, leaves the record of the match without context.
\<close>

theorem context_lines_not_attached:
  "parseContentOutput (demoHost noMatches) [''begin file1'', ''context 3'', ''match 4'']
      ''/tmp/ws'' (demoOptions\<lparr> output_mode := Some content_mode, opt_B := Some 1 \<rparr>)
   = ContentData [\<lparr> filePath = ''file1.txt'', matches = [\<lparr> line = 4,
        content = ''Line four has the word FINDME in it.'', column = Some 24,
        beforeContext = None, afterContext = None \<rparr>] \<rparr>]"
  by code_simp

lemma context_step: "isContext (JSON_parse W l) \<Longrightarrow> contentStep W workspace options st l = st"
  by (cases "JSON_parse W l" rule: isContext.cases) (auto simp: contentStep_def split: prod.splits)

lemma contentLoop_filter_context:
  "foldl (contentStep W workspace options) st (filter (\<lambda>l. \<not> isContext (JSON_parse W l)) ls) =
   foldl (contentStep W workspace options) st ls"
  by (induction ls arbitrary: st) (auto simp: context_step)

lemma matchRecord_no_context:
  "beforeContext (matchRecord options t n sms) = None \<and>
   afterContext (matchRecord options t n sms) = None"
  by (simp add: matchRecord_def Let_def)

text \<open>
  Claim C6, amended.  Context messages are read and then ignored: the result is the result
  for the stream without them, and no returned record carries context lines.
\<close>

theorem context_events_have_no_effect:
  "parseContentOutput W ls workspace options =
     parseContentOutput W (filter (\<lambda>l. \<not> isContext (JSON_parse W l)) ls) workspace options
   \<and> (\<forall>g \<in> set (contentData (parseContentOutput W ls workspace options)).
        \<forall>m \<in> set (matches g). beforeContext m = None \<and> afterContext m = None)"
proof
  show "parseContentOutput W ls workspace options =
     parseContentOutput W (filter (\<lambda>l. \<not> isContext (JSON_parse W l)) ls) workspace options"
    by (simp add: parseContentOutput_def contentLoop_def contentLoop_filter_context)
  show "\<forall>g \<in> set (contentData (parseContentOutput W ls workspace options)).
        \<forall>m \<in> set (matches g). beforeContext m = None \<and> afterContext m = None"
  proof (intro ballI)
    fix g m
    assume "g \<in> set (contentData (parseContentOutput W ls workspace options))"
      and "m \<in> set (matches g)"
    then obtain t n sms where "m = matchRecord options t n sms"
      using result_records by blast
    then show "beforeContext m = None \<and> afterContext m = None"
      using matchRecord_no_context by simp
  qed
qed

theorem context_events_have_no_effect_witness:
  "parseContentOutput (demoHost noMatches) [''begin file1'', ''context 3'', ''match 4'']
       ''/tmp/ws'' demoOptions
   = parseContentOutput (demoHost noMatches) [''begin file1'', ''match 4''] ''/tmp/ws'' demoOptions
   \<and> list_all (\<lambda>g. list_all (\<lambda>m. beforeContext m = None \<and> afterContext m = None) (matches g))
       (contentData (parseContentOutput (demoHost noMatches)
          [''begin file1'', ''context 3'', ''match 4''] ''/tmp/ws'' demoOptions))
   \<and> contentData (parseContentOutput (demoHost noMatches)
          [''begin file1'', ''context 3'', ''match 4''] ''/tmp/ws'' demoOptions) \<noteq> []"
proof -
  have f: "filter (\<lambda>l. \<not> isContext (JSON_parse (demoHost noMatches) l))
      [''begin file1'', ''context 3'', ''match 4''] = [''begin file1'', ''match 4'']"
    by code_simp
  have n: "contentData (parseContentOutput (demoHost noMatches)
          [''begin file1'', ''context 3'', ''match 4''] ''/tmp/ws'' demoOptions) \<noteq> []"
    by code_simp
  note t = context_events_have_no_effect[of "demoHost noMatches"
        "[''begin file1'', ''context 3'', ''match 4'']" "''/tmp/ws''" demoOptions, unfolded f]
  have a: "parseContentOutput (demoHost noMatches) [''begin file1'', ''context 3'', ''match 4'']
       ''/tmp/ws'' demoOptions
     = parseContentOutput (demoHost noMatches) [''begin file1'', ''match 4''] ''/tmp/ws'' demoOptions"
    using t by (rule conjunct1)
  have b: "list_all (\<lambda>g. list_all (\<lambda>m. beforeContext m = None \<and> afterContext m = None) (matches g))
       (contentData (parseContentOutput (demoHost noMatches)
          [''begin file1'', ''context 3'', ''match 4''] ''/tmp/ws'' demoOptions))"
    using t[THEN conjunct2] by (simp only: list_all_iff)
  show ?thesis using a b n by (intro conjI)
qed

text \<open>Supporting facts on the loop.\<close>

lemma groups_nonempty:
  "g \<in> set (contentData (parseContentOutput W ls workspace options)) \<Longrightarrow> matches g \<noteq> []"
  by (auto simp: parseContentOutput_def contentGroups_def)

lemma keys_pushMatch: "map fst (pushMatch f m fm) = map fst fm"
  by (induction fm) (auto simp: pushMatch_def)

lemma step_keys_distinct:
  "distinct (map fst fm) \<Longrightarrow> distinct (map fst (fst (contentStep W workspace options (fm, c) l)))"
  by (cases "JSON_parse W l" rule: isContext.cases; cases "JSON_parse W l")
     (auto simp: contentStep_def Let_def keys_pushMatch split: rgMessage.splits)

lemma loop_keys_distinct: "distinct (map fst (fst (contentLoop W ls workspace options)))"
proof (induction ls rule: rev_induct)
  case Nil
  show ?case by (simp add: contentLoop_def)
next
  case (snoc l ls)
  show ?case
    using step_keys_distinct[OF snoc.IH, of W workspace options
        "snd (contentLoop W ls workspace options)" l]
    by (simp add: contentLoop_snoc)
qed

lemma groups_keys: "map filePath (contentGroups fm) = map fst (filter (\<lambda>(f, ms). length ms > 0) fm)"
  by (induction fm) (auto simp: contentGroups_def)

lemma distinct_paths:
  "distinct (map filePath (contentData (parseContentOutput W ls workspace options)))"
  using loop_keys_distinct[of W ls workspace options]
  by (simp add: parseContentOutput_def groups_keys distinct_map_filter)

fun isBegin :: "rgMessage option \<Rightarrow> bool" where
  "isBegin (Some (Begin p)) = True"
| "isBegin _ = False"

lemma step_before_begin:
  "\<not> isBegin (JSON_parse W l) \<Longrightarrow> contentStep W workspace options (fm, None) l = (fm, None)"
  by (cases "JSON_parse W l" rule: isBegin.cases) (auto simp: contentStep_def)

lemma dropped_before_begin:
  "\<forall>l \<in> set pre. \<not> isBegin (JSON_parse W l) \<Longrightarrow>
   contentLoop W (pre @ rest) workspace options = contentLoop W rest workspace options"
proof -
  assume a: "\<forall>l \<in> set pre. \<not> isBegin (JSON_parse W l)"
  have "foldl (contentStep W workspace options) (fm, None) pre = (fm, None)" for fm
    using a by (induction pre) (auto simp: step_before_begin)
  then show ?thesis by (simp add: contentLoop_def)
qed

lemma begin_seen_keeps_groups:
  "JSON_parse W l = Some (Begin p) \<Longrightarrow> relative (cwd W) workspace p \<in> set (map fst fm) \<Longrightarrow>
   contentStep W workspace options (fm, c) l = (fm, Some (relative (cwd W) workspace p))"
  by (simp add: contentStep_def)

lemma match_appended:
  "JSON_parse W l = Some (Match t n sms) \<Longrightarrow> f \<noteq> [] \<Longrightarrow>
   contentStep W workspace options (fm, Some f) l =
     (pushMatch f (matchRecord options t n sms) fm, Some f)"
  by (simp add: contentStep_def)

lemma pushMatch_group:
  "map_of (pushMatch f m fm) k =
     (if k = f then map_option (\<lambda>ms. ms @ [m]) (map_of fm f) else map_of fm k)"
  by (induction fm) (auto simp: pushMatch_def)

lemma matchRecord_fields:
  "line (matchRecord options t n sms) = n \<and>
   content (matchRecord options t n sms) = trimEnd t \<and>
   column (matchRecord options t n sms) =
     (if opt_n options = Some False then None
      else Some (case sms of [] \<Rightarrow> 1 | start # _ \<Rightarrow> start + 1))"
  by (cases sms) (simp_all add: matchRecord_def Let_def)


text \<open>
  Claim C3 (every match message inside a begun file appends a record with the message's line
  number, its text without trailing white space and the first submatch's offset plus one; a
  group without matches is not returned).  The record is as claimed (\<open>matchRecord_fields\<close>),
  it is appended to the current file's group whenever the relative path of that file is not
  empty (\<open>match_appended\<close>, \<open>pushMatch_group\<close>), and no empty group is returned
  (\<open>groups_nonempty\<close>).  The test \<^verbatim>\<open>&& currentFile\<close> meant for \<^verbatim>\<open>null\<close> also rejects the empty
  string, which is the relative path of a begun file that is the workspace path itself: its
  matches are dropped.
\<close>

theorem match_in_workspace_file_is_dropped:
  "parseContentOutput (demoHost noMatches) [''begin workspace'', ''match 4''] ''/tmp/ws'' demoOptions
   = ContentData []
   \<and> JSON_parse (demoHost noMatches) ''begin workspace'' = Some (Begin ''/tmp/ws'')
   \<and> relative ''/'' ''/tmp/ws'' ''/tmp/ws'' = []"
  by code_simp

text \<open>
  Claim C9 (matches before any begin message are dropped; a second begin message for a file
  already seen appends to the existing group; no path appears twice).  Lines before the first
  begin message change nothing (\<open>dropped_before_begin\<close>), a begin message for a path already
  in the map leaves the map as it is (\<open>begin_seen_keeps_groups\<close>), and the paths returned are
  distinct (\<open>distinct_paths\<close>).  After a second begin message for the workspace path itself
  the following match is again dropped, not appended to the group that exists.
\<close>

theorem second_begin_of_workspace_file_drops_matches:
  "fst (contentLoop (demoHost noMatches)
      [''begin workspace'', ''begin file1'', ''match 4'', ''begin workspace'', ''match 10'']
      ''/tmp/ws'' demoOptions)
   = [([], []), (''file1.txt'', [matchRecord demoOptions ''Line four has the word FINDME in it.  '' 4 [23]])]
   \<and> parseContentOutput (demoHost noMatches)
      [''begin workspace'', ''begin file1'', ''match 4'', ''begin workspace'', ''match 10'']
      ''/tmp/ws'' demoOptions
   = ContentData [\<lparr> filePath = ''file1.txt'', matches = [\<lparr> line = 4,
        content = ''Line four has the word FINDME in it.'', column = Some 24,
        beforeContext = None, afterContext = None \<rparr>] \<rparr>]"
  by code_simp

subsection \<open>Count mode\<close>




lemma digitChar_digit: "d < 10 \<Longrightarrow> isDigit (digitChar d) \<and> digitVal (digitChar d) = d"
  by (simp add: isDigit_def digitVal_def digitChar_def)

lemma showNat_digits: "list_all isDigit (showNat n)"
proof (induction n rule: showNat.induct)
  case (1 n)
  show ?case
  proof (cases "n < 10")
    case True
    then show ?thesis using digitChar_digit[of n] by (subst showNat.simps) simp
  next
    case False
    then show ?thesis
      using 1 digitChar_digit[of "n mod 10"] by (subst showNat.simps) simp
  qed
qed

lemma decimal_snoc: "decimal (ds @ [c]) = 10 * decimal ds + digitVal c"
  by (simp add: decimal_def)

text \<open>The digits of a number read back as that number.\<close>

lemma decimal_showNat: "decimal (showNat n) = n"
proof (induction n rule: showNat.induct)
  case (1 n)
  show ?case
  proof (cases "n < 10")
    case True
    then show ?thesis
      using digitChar_digit[of n] by (subst showNat.simps) (simp add: decimal_def)
  next
    case False
    then show ?thesis
      using 1 digitChar_digit[of "n mod 10"]
      by (subst showNat.simps) (simp add: decimal_snoc)
  qed
qed







text \<open>The largest double, and the first integer that rounds beyond it.\<close>

lemma toNumber_largest:
  "toNumber negative (2 ^ 1024 - 2 ^ 970 - 1) = Finite negative (2 ^ 1024 - 2 ^ 971)"
  by (simp add: toNumber_def toDouble_def bitLength.simps Let_def)

lemma toNumber_overflow: "toNumber negative (2 ^ 1024 - 2 ^ 970) = Infinity negative"
  by (simp add: toNumber_def toDouble_def bitLength.simps Let_def)

lemma toNumber_ties_to_even:
  "toNumber negative (2 ^ 53 + 1) = Finite negative (2 ^ 53)
   \<and> toNumber negative (2 ^ 53 + 3) = Finite negative (2 ^ 53 + 4)"
  by (simp add: toNumber_def toDouble_def bitLength.simps Let_def)














section \<open>Paths made of clean segments\<close>

text \<open>
  A clean segment is a file name: not empty, without a slash, neither \<^verbatim>\<open>.\<close> nor \<^verbatim>\<open>..\<close>.  On
  absolute paths made of clean segments the path functions act on the segment lists.
\<close>

definition cleanSeg :: "string \<Rightarrow> bool" where
  "cleanSeg c = (c \<noteq> [] \<and> sep \<notin> set c \<and> c \<noteq> ''.'' \<and> c \<noteq> ''..'')"

definition absPath :: "string list \<Rightarrow> string" where
  "absPath cs = sep # joinWith ''/'' cs"

lemma splitOn_clean: "d \<notin> set x \<Longrightarrow> splitOn d x = [x]"
  by (induction x) auto

lemma splitOn_append: "splitOn d (x @ d # y) = splitOn d x @ splitOn d y"
proof (induction x)
  case Nil
  show ?case by simp
next
  case (Cons c x)
  then show ?case
    using splitOn_nonempty[of d x] by (cases "splitOn d x") auto
qed

lemma splitOn_clean_append: "d \<notin> set x \<Longrightarrow> splitOn d (x @ d # y) = x # splitOn d y"
proof (induction x)
  case Nil
  show ?case by simp
next
  case (Cons c x)
  then show ?case using splitOn_nonempty[of d "x @ d # y"] by (auto split: list.splits)
qed

lemma splitOn_joinWith:
  "cs \<noteq> [] \<Longrightarrow> \<forall>c \<in> set cs. sep \<notin> set c \<Longrightarrow> splitOn sep (joinWith ''/'' cs) = cs"
proof (induction cs rule: induct_list012)
  case 1
  then show ?case by simp
next
  case (2 x)
  then show ?case by (simp add: splitOn_clean)
next
  case (3 x y r)
  have "splitOn sep (x @ sep # joinWith ''/'' (y # r)) = x # splitOn sep (joinWith ''/'' (y # r))"
    using 3(4) by (simp add: splitOn_clean_append)
  with 3 show ?case by (simp add: sep_def)
qed

lemma joinWith_append:
  "xs \<noteq> [] \<Longrightarrow> ys \<noteq> [] \<Longrightarrow> joinWith g (xs @ ys) = joinWith g xs @ g @ joinWith g ys"
proof (induction xs rule: induct_list012)
  case 1
  then show ?case by simp
next
  case (2 x)
  then show ?case by (cases ys) auto
next
  case (3 x y r)
  then show ?case by simp
qed

lemma normalizeParts_clean:
  "\<forall>c \<in> set cs. cleanSeg c \<Longrightarrow> normalizeParts a res cs = res @ cs"
  by (induction cs arbitrary: res) (auto simp: cleanSeg_def)

lemma pathParts_absPath: "\<forall>c \<in> set cs. cleanSeg c \<Longrightarrow> pathParts (absPath cs) = cs"
proof (cases "cs = []")
  case True
  then show ?thesis by (simp add: pathParts_def absPath_def sep_def)
next
  case False
  assume a: "\<forall>c \<in> set cs. cleanSeg c"
  then have "splitOn sep (joinWith ''/'' cs) = cs"
    using False splitOn_joinWith[of cs] by (auto simp: cleanSeg_def)
  moreover have "filter (\<lambda>c. c \<noteq> []) cs = cs" using a by (auto simp: cleanSeg_def filter_id_conv)
  ultimately show ?thesis by (simp add: pathParts_def absPath_def)
qed

lemma normalizeString_absPath:
  "\<forall>c \<in> set cs. cleanSeg c \<Longrightarrow> normalizeString (absPath cs) a = joinWith ''/'' cs"
proof (cases "cs = []")
  case True
  then show ?thesis by (simp add: normalizeString_def absPath_def sep_def)
next
  case False
  assume a: "\<forall>c \<in> set cs. cleanSeg c"
  then have "splitOn sep (joinWith ''/'' cs) = cs"
    using False splitOn_joinWith[of cs] by (auto simp: cleanSeg_def)
  then show ?thesis using a by (simp add: normalizeString_def absPath_def normalizeParts_clean)
qed

lemma joinWith_last:
  "cs \<noteq> [] \<Longrightarrow> last cs \<noteq> [] \<Longrightarrow> joinWith ''/'' cs \<noteq> [] \<and> last (joinWith ''/'' cs) = last (last cs)"
  by (induction cs rule: induct_list012) auto

lemma normalize_absPath: "\<forall>c \<in> set cs. cleanSeg c \<Longrightarrow> normalize (absPath cs) = absPath cs"
proof (cases "cs = []")
  case True
  then show ?thesis by (simp add: normalize_def normalizeString_def absPath_def sep_def)
next
  case False
  assume a: "\<forall>c \<in> set cs. cleanSeg c"
  then have l: "cleanSeg (last cs)" using False by simp
  then have j: "joinWith ''/'' cs \<noteq> [] \<and> last (joinWith ''/'' cs) = last (last cs)"
    using joinWith_last[OF False] by (simp add: cleanSeg_def)
  have "last (last cs) \<noteq> sep" using l by (metis cleanSeg_def last_in_set)
  with j have t: "last (absPath cs) \<noteq> sep" by (simp add: absPath_def)
  show ?thesis
    using normalizeString_absPath[OF a, of False] j t
    by (simp add: normalize_def Let_def) (simp add: absPath_def sep_def)
qed

lemma resolve_absPath: "\<forall>c \<in> set cs. cleanSeg c \<Longrightarrow> resolve d [absPath cs] = absPath cs"
proof -
  assume a: "\<forall>c \<in> set cs. cleanSeg c"
  have s: "splitOn sep (absPath cs @ ''/'') = splitOn sep (absPath cs) @ [[]]"
    using splitOn_append[of sep "absPath cs" "[]"] by (simp add: sep_def)
  have n: "normalizeParts False [] (splitOn sep (absPath cs) @ [[]]) =
      normalizeParts False [] (splitOn sep (absPath cs))"
  proof -
    have "normalizeParts b res (xs @ [[]]) = normalizeParts b res xs" for b res xs
      by (induction xs arbitrary: res) auto
    then show ?thesis .
  qed
  have "normalizeString (absPath cs @ ''/'') False = joinWith ''/'' cs"
    using normalizeString_absPath[OF a, of False] s n by (simp add: normalizeString_def)
  then show ?thesis by (simp add: resolve_def absPath_def)
qed

lemma commonPrefix_append: "commonPrefix xs (xs @ ys) = length xs"
  by (induction xs) auto

lemma absPath_inj:
  "\<forall>c \<in> set cs. cleanSeg c \<Longrightarrow> \<forall>c \<in> set ds. cleanSeg c \<Longrightarrow> absPath cs = absPath ds \<Longrightarrow> cs = ds"
  using pathParts_absPath by metis

lemma relative_absPath:
  assumes "\<forall>c \<in> set cs. cleanSeg c" and "\<forall>c \<in> set ns. cleanSeg c" and "ns \<noteq> []"
  shows "relative d (absPath cs) (absPath (cs @ ns)) = joinWith ''/'' ns"
proof -
  have all: "\<forall>c \<in> set (cs @ ns). cleanSeg c" using assms by auto
  have ne: "absPath cs \<noteq> absPath (cs @ ns)"
    using absPath_inj[OF assms(1) all] assms(3) by auto
  show ?thesis
    using ne resolve_absPath[OF assms(1), of d] resolve_absPath[OF all, of d]
      pathParts_absPath[OF assms(1)] pathParts_absPath[OF all]
    by (simp add: relative_def Let_def commonPrefix_append)
qed


lemma normalizeParts_append:
  "normalizeParts a res (xs @ ys) = normalizeParts a (normalizeParts a res xs) ys"
  by (induction xs arbitrary: res) auto

lemma normalizeParts_absPath:
  "\<forall>c \<in> set cs. cleanSeg c \<Longrightarrow> normalizeParts a [] (splitOn sep (absPath cs)) = cs"
proof (cases "cs = []")
  case True
  then show ?thesis by (simp add: absPath_def sep_def)
next
  case False
  assume a: "\<forall>c \<in> set cs. cleanSeg c"
  then have "splitOn sep (joinWith ''/'' cs) = cs"
    using False splitOn_joinWith[of cs] by (auto simp: cleanSeg_def)
  then show ?thesis using a by (simp add: absPath_def normalizeParts_clean)
qed

lemma joinWith_nonempty:
  "\<forall>c \<in> set ns. cleanSeg c \<Longrightarrow> ns \<noteq> [] \<Longrightarrow>
   joinWith ''/'' ns \<noteq> [] \<and> last (joinWith ''/'' ns) \<noteq> sep"
proof -
  assume a: "\<forall>c \<in> set ns. cleanSeg c" and n: "ns \<noteq> []"
  then have l: "cleanSeg (last ns)" by simp
  then have j: "joinWith ''/'' ns \<noteq> [] \<and> last (joinWith ''/'' ns) = last (last ns)"
    using joinWith_last[OF n] by (simp add: cleanSeg_def)
  have "last (last ns) \<noteq> sep" using l by (metis cleanSeg_def last_in_set)
  with j show ?thesis by simp
qed

lemma join_absPath:
  assumes "\<forall>c \<in> set cs. cleanSeg c" and "\<forall>c \<in> set ns. cleanSeg c" and "ns \<noteq> []"
  shows "join [absPath cs, joinWith ''/'' ns] = absPath (cs @ ns)"
proof -
  let ?j = "absPath cs @ sep # joinWith ''/'' ns"
  have ne: "joinWith ''/'' ns \<noteq> [] \<and> last (joinWith ''/'' ns) \<noteq> sep"
    using joinWith_nonempty[OF assms(2,3)] .
  have sp: "splitOn sep (joinWith ''/'' ns) = ns"
    using assms(2,3) splitOn_joinWith[of ns] by (auto simp: cleanSeg_def)
  have "normalizeParts False [] (splitOn sep ?j) = cs @ ns"
    using normalizeParts_absPath[OF assms(1), of False] sp assms(2)
    by (simp add: splitOn_append normalizeParts_append normalizeParts_clean)
  then have ns: "normalizeString ?j False = joinWith ''/'' (cs @ ns)"
    by (simp add: normalizeString_def)
  have all: "\<forall>c \<in> set (cs @ ns). cleanSeg c" using assms by auto
  have ne2: "joinWith ''/'' (cs @ ns) \<noteq> []"
    using joinWith_nonempty[OF all] assms(3) by simp
  have hd: "hd ?j = sep" by (simp add: absPath_def)
  have lst: "last ?j \<noteq> sep" using ne by simp
  have "normalize ?j = absPath (cs @ ns)"
    using ns ne2 hd lst by (simp add: normalize_def Let_def) (simp add: absPath_def sep_def)
  moreover have "join [absPath cs, joinWith ''/'' ns] = normalize ?j"
    using ne by (simp add: join_def absPath_def sep_def)
  ultimately show ?thesis by simp
qed

lemma startsWith_absPath:
  "\<forall>c \<in> set ns. cleanSeg c \<Longrightarrow> startsWith (absPath (cs @ ns)) (absPath cs)"
proof (cases "ns = []")
  case True
  then show ?thesis by (simp add: startsWith_def)
next
  case False
  assume a: "\<forall>c \<in> set ns. cleanSeg c"
  show ?thesis
  proof (cases "cs = []")
    case True
    then show ?thesis by (simp add: startsWith_def absPath_def)
  next
    case c: False
    show ?thesis using joinWith_append[OF c False, of "''/''"] by (simp add: startsWith_def absPath_def)
  qed
qed

section \<open>What the walk collects\<close>

text \<open>
  A tree is well formed when every entry name is a clean segment.  \<open>filesUnder\<close> lists the
  regular files below a node by their segments, in the order of the walk.
\<close>

fun wfNode :: "node \<Rightarrow> bool" and wfEntries :: "(string \<times> node) list \<Rightarrow> bool" where
  "wfNode (Dir es) = wfEntries es"
| "wfNode (Locked es) = wfEntries es"
| "wfNode File = True"
| "wfNode Special = True"
| "wfEntries [] = True"
| "wfEntries ((name, n) # es) = (cleanSeg name \<and> wfNode n \<and> wfEntries es)"

fun filesUnder :: "node \<Rightarrow> string list list" and filesIn :: "(string \<times> node) list \<Rightarrow> string list list" where
  "filesUnder (Dir es) = filesIn es"
| "filesUnder (Locked es) = []"
| "filesUnder File = []"
| "filesUnder Special = []"
| "filesIn [] = []"
| "filesIn ((name, n) # es) =
     (if isDirectory n then map (Cons name) (filesUnder n)
      else if isFile n then [[name]]
      else [])
     @ filesIn es"

lemma collect_paths:
  "wfNode n \<Longrightarrow> \<forall>c \<in> set cs. cleanSeg c \<Longrightarrow>
     collectFiles n (absPath cs) b = map (\<lambda>ns. absPath (cs @ ns)) (filesUnder n)"
  "wfEntries es \<Longrightarrow> \<forall>c \<in> set cs. cleanSeg c \<Longrightarrow>
     collectEntries es (absPath cs) b = map (\<lambda>ns. absPath (cs @ ns)) (filesIn es)"
proof (induction n "absPath cs" b and es "absPath cs" b arbitrary: cs and cs
    rule: collectFiles_collectEntries.induct)
  case (1 es basePath)
  then show ?case by simp
next
  case (2 es basePath)
  then show ?case by simp
next
  case (3 basePath)
  then show ?case by simp
next
  case (4 basePath)
  then show ?case by simp
next
  case (5 basePath)
  then show ?case by simp
next
  case (6 name n es basePath)
  have nm: "cleanSeg name" and wn: "wfNode n" and we: "wfEntries es" using "6.prems"(1) by auto
  have j: "join [absPath cs, name] = absPath (cs @ [name])"
    using join_absPath[OF "6.prems"(2), of "[name]"] nm by simp
  have all: "\<forall>c \<in> set (cs @ [name]). cleanSeg c" using "6.prems"(2) nm by simp
  have rest: "collectEntries es (absPath cs) basePath = map (\<lambda>ns. absPath (cs @ ns)) (filesIn es)"
    using "6.hyps"(2)[OF refl we "6.prems"(2)] .
  show ?case
  proof (cases "isDirectory n")
    case True
    have "collectFiles n (absPath (cs @ [name])) basePath =
        map (\<lambda>ns. absPath ((cs @ [name]) @ ns)) (filesUnder n)"
      using "6.hyps"(1)[OF j[symmetric] True wn all] j by simp
    with True rest j show ?thesis by (simp add: comp_def)
  next
    case False
    with rest j show ?thesis by simp
  qed
qed


section \<open>Properties of the glob operation\<close>

text \<open>The search path argument that names the directory with the given segments below the root.\<close>

definition searchArg :: "string list \<Rightarrow> string option" where
  "searchArg scs = (if scs = [] then None else Some (joinWith ''/'' scs))"

lemma files_clean:
  "wfNode n \<Longrightarrow> ns \<in> set (filesUnder n) \<Longrightarrow> ns \<noteq> [] \<and> (\<forall>c \<in> set ns. cleanSeg c)"
  "wfEntries es \<Longrightarrow> ns \<in> set (filesIn es) \<Longrightarrow> ns \<noteq> [] \<and> (\<forall>c \<in> set ns. cleanSeg c)"
proof (induction n and es arbitrary: ns and ns rule: filesUnder_filesIn.induct)
  case (6 name n es)
  then show ?case by (auto split: if_splits)
qed auto

lemma test_compiled:
  "globToRegex ptn = Some (Bol # map rxOfToken (tokenize ptn) @ [Eol]) \<and>
   RegExp_test (Bol # map rxOfToken (tokenize ptn) @ [Eol]) p = globTest ptn p"
  by (simp add: globTest_def globToRegex_compiles)

lemma glob_result:
  assumes pat: "ptn \<noteq> []"
    and w: "\<forall>c \<in> set wcs. cleanSeg c" and s: "\<forall>c \<in> set scs. cleanSeg c"
    and st: "walk (root W) (wcs @ scs) = Inr st" and dir: "isDirectory st" and wf: "wfNode st"
  shows "glob W (absPath wcs) ptn (searchArg scs) =
    Success (sort (map (\<lambda>ns. joinWith ''/'' (scs @ ns))
      (filter (\<lambda>ns. globTest ptn (joinWith ''/'' ns)) (filesUnder st))))"
proof -
  let ?base = "absPath (wcs @ scs)"
  have all: "\<forall>c \<in> set (wcs @ scs). cleanSeg c" using w s by auto
  have given: "(case searchArg scs of None \<Rightarrow> False | Some x \<Rightarrow> x \<noteq> []) = (scs \<noteq> [])"
    using joinWith_nonempty[OF s] by (simp add: searchArg_def)
  have bp: "(if scs \<noteq> [] then join [absPath wcs, the (searchArg scs)] else absPath wcs) = ?base"
    using join_absPath[OF w s] by (simp add: searchArg_def)
  have chk: "startsWith (normalize ?base) (normalize (absPath wcs))"
    using normalize_absPath[OF all] normalize_absPath[OF w] startsWith_absPath[OF s, of wcs] by simp
  have stat: "stat W ?base = Inr st"
    using resolve_absPath[OF all, of "cwd W"] pathParts_absPath[OF all] st by (simp add: stat_def)
  have cf: "collectFiles st ?base (absPath wcs) = map (\<lambda>ns. absPath ((wcs @ scs) @ ns)) (filesUnder st)"
    using collect_paths(1)[OF wf all] .
  have rel1: "relative (cwd W) ?base (absPath ((wcs @ scs) @ ns)) = joinWith ''/'' ns"
    if "ns \<in> set (filesUnder st)" for ns
    using relative_absPath[OF all, of ns "cwd W"] files_clean(1)[OF wf that] by simp
  have rel2: "relative (cwd W) (absPath wcs) (absPath ((wcs @ scs) @ ns)) = joinWith ''/'' (scs @ ns)"
    if "ns \<in> set (filesUnder st)" for ns
  proof -
    have "\<forall>c \<in> set (scs @ ns). cleanSeg c" "scs @ ns \<noteq> []"
      using files_clean(1)[OF wf that] s by auto
    from relative_absPath[OF w this, of "cwd W"] show ?thesis by simp
  qed
  let ?R = "Bol # map rxOfToken (tokenize ptn) @ [Eol]"
  have flt: "filter (\<lambda>file. RegExp_test ?R
                (joinWith ''/'' (splitOn sep (relative (cwd W) ?base file))))
        (map (\<lambda>ns. absPath ((wcs @ scs) @ ns)) (filesUnder st))
      = map (\<lambda>ns. absPath ((wcs @ scs) @ ns))
          (filter (\<lambda>ns. globTest ptn (joinWith ''/'' ns)) (filesUnder st))"
  proof -
    have "filter ((\<lambda>file. RegExp_test ?R (joinWith ''/'' (splitOn sep (relative (cwd W) ?base file))))
            \<circ> (\<lambda>ns. absPath ((wcs @ scs) @ ns))) (filesUnder st)
        = filter (\<lambda>ns. globTest ptn (joinWith ''/'' ns)) (filesUnder st)"
      using rel1 test_compiled[of ptn] join_split[of "CHR ''/''"]
      by (intro filter_cong) (auto simp: sep_def)
    then show ?thesis by (simp add: filter_map)
  qed
  let ?X = "filter (\<lambda>ns. globTest ptn (joinWith ''/'' ns)) (filesUnder st)"
  have res: "map (relative (cwd W) (absPath wcs) \<circ> (\<lambda>ns. absPath (wcs @ scs @ ns))) ?X
      = map (\<lambda>ns. joinWith ''/'' (scs @ ns)) ?X"
    using rel2 by (intro map_cong) auto
  have g1: "glob W (absPath wcs) ptn (searchArg scs) =
      Success (sort (map (relative (cwd W) (absPath wcs) \<circ> (\<lambda>ns. absPath (wcs @ scs @ ns))) ?X))"
    unfolding glob_def
    using pat given bp chk stat dir cf flt test_compiled[of ptn]
    by (simp add: Let_def)
  show ?thesis by (simp only: g1 res)
qed


lemma star_test: "globTest ''*'' p = (sep \<notin> set p)"
proof -
  have "(\<exists>u v. p = u @ v \<and> sep \<notin> set u \<and> v = []) = (sep \<notin> set p)" by auto
  then show ?thesis by (simp add: globTest_iff)
qed

lemma globstar_star_test:
  assumes "sep \<notin> set f" and "\<forall>x \<in> set d. \<not> isLineTerminator x"
  shows "globTest ''**/*'' (d @ sep # f)"
proof -
  have "d @ sep # f = (d @ [sep]) @ f \<and> tokenAccepts TGlobstarDir (d @ [sep])
      \<and> generates tokenAccepts [TStar] f"
    using assms by simp
  then have "generates tokenAccepts [TGlobstarDir, TStar] (d @ sep # f)"
    unfolding generates.simps(2)[of tokenAccepts TGlobstarDir] by blast
  then show ?thesis by (simp add: globTest_iff)
qed

lemma joinWith_two: "sep \<in> set (joinWith ''/'' (x # y # r))"
  by (simp add: sep_def)

lemma joinWith_sep_free:
  "sep \<notin> set (joinWith ''/'' ns) \<Longrightarrow> ns \<noteq> [] \<Longrightarrow> \<exists>name. ns = [name]"
proof -
  assume a: "sep \<notin> set (joinWith ''/'' ns)" and n: "ns \<noteq> []"
  from n obtain x r where x: "ns = x # r" by (cases ns) auto
  show ?thesis
  proof (cases r)
    case Nil
    with x show ?thesis by simp
  next
    case (Cons y r')
    with x a joinWith_two[of x y r'] show ?thesis by simp
  qed
qed

lemma joinWith_snoc_two: "sep \<in> set (joinWith ''/'' (scs @ [d, f]))"
proof (cases scs)
  case Nil
  then show ?thesis by (simp add: sep_def)
next
  case (Cons a r)
  then show ?thesis using joinWith_two[of a] by (cases "r @ [d, f]") auto
qed

lemma filesIn_file: "(f, File) \<in> set es \<Longrightarrow> [f] \<in> set (filesIn es)"
  by (induction es) auto

lemma filesIn_dir:
  "(d, n) \<in> set es \<Longrightarrow> isDirectory n \<Longrightarrow> ns \<in> set (filesUnder n) \<Longrightarrow> d # ns \<in> set (filesIn es)"
  by (induction es) auto

lemma entries_clean: "wfEntries es \<Longrightarrow> (name, n) \<in> set es \<Longrightarrow> cleanSeg name \<and> wfNode n"
  by (induction es) auto

text \<open>
  Claim C5, amended.  Let the workspace be an absolute path of clean segments, and the
  directory searched lie below it by the clean segments \<open>scs\<close> (none for the root itself).
  Then the result is the sorted list of the matching files, each as \<open>scs\<close> followed by its
  segments below the directory searched: relative to the workspace root, not to that
  directory.  The single star returns only files directly in the directory searched, so
  its paths have no slash when the root itself is searched; and \<^verbatim>\<open>**/*\<close> returns a path with
  a slash for a file in a subdirectory whose name has no line terminator.
\<close>

theorem glob_paths_are_relative_to_the_workspace:
  assumes w: "\<forall>c \<in> set wcs. cleanSeg c" and s: "\<forall>c \<in> set scs. cleanSeg c"
    and st: "walk (root W) (wcs @ scs) = Inr st" and dir: "isDirectory st" and wf: "wfNode st"
  shows "(ptn \<noteq> [] \<longrightarrow>
           glob W (absPath wcs) ptn (searchArg scs) =
             Success (sort (map (\<lambda>ns. joinWith ''/'' (scs @ ns))
               (filter (\<lambda>ns. globTest ptn (joinWith ''/'' ns)) (filesUnder st)))))
       \<and> (\<exists>rs. glob W (absPath wcs) ''*'' (searchArg scs) = Success rs \<and>
             (\<forall>r \<in> set rs. \<exists>name. r = joinWith ''/'' (scs @ [name]) \<and> sep \<notin> set name) \<and>
             (scs = [] \<longrightarrow> (\<forall>r \<in> set rs. sep \<notin> set r)))
       \<and> (st = Dir entries \<and> (d, Dir es) \<in> set entries \<and> (f, File) \<in> set es \<and>
             (\<forall>x \<in> set d. \<not> isLineTerminator x) \<longrightarrow>
           (\<exists>rs. glob W (absPath wcs) ''**/*'' (searchArg scs) = Success rs \<and>
              joinWith ''/'' (scs @ [d, f]) \<in> set rs \<and>
              sep \<in> set (joinWith ''/'' (scs @ [d, f]))))"
proof (intro conjI impI)
  show "glob W (absPath wcs) ptn (searchArg scs) =
             Success (sort (map (\<lambda>ns. joinWith ''/'' (scs @ ns))
               (filter (\<lambda>ns. globTest ptn (joinWith ''/'' ns)) (filesUnder st))))"
    if "ptn \<noteq> []"
    using glob_result[OF that w s st dir wf] .
next
  let ?rs = "sort (map (\<lambda>ns. joinWith ''/'' (scs @ ns))
               (filter (\<lambda>ns. globTest ''*'' (joinWith ''/'' ns)) (filesUnder st)))"
  have g: "glob W (absPath wcs) ''*'' (searchArg scs) = Success ?rs"
    using glob_result[OF _ w s st dir wf, of "''*''"] by simp
  have names: "\<exists>name. r = joinWith ''/'' (scs @ [name]) \<and> sep \<notin> set name" if "r \<in> set ?rs" for r
  proof -
    from that obtain ns where ns: "ns \<in> set (filesUnder st)" "sep \<notin> set (joinWith ''/'' ns)"
      "r = joinWith ''/'' (scs @ ns)" by (auto simp: star_test)
    from files_clean(1)[OF wf ns(1)] joinWith_sep_free[OF ns(2)] obtain name where
      n: "ns = [name]" by blast
    with ns(2) have "sep \<notin> set name" by simp
    with n ns(3) show ?thesis by blast
  qed
  have root: "\<forall>r \<in> set ?rs. sep \<notin> set r" if "scs = []"
  proof
    fix r assume "r \<in> set ?rs"
    from names[OF this] that show "sep \<notin> set r" by auto
  qed
  show "\<exists>rs. glob W (absPath wcs) ''*'' (searchArg scs) = Success rs \<and>
             (\<forall>r \<in> set rs. \<exists>name. r = joinWith ''/'' (scs @ [name]) \<and> sep \<notin> set name) \<and>
             (scs = [] \<longrightarrow> (\<forall>r \<in> set rs. sep \<notin> set r))"
    using g names root by (intro exI[of _ ?rs]) blast
next
  assume a: "st = Dir entries \<and> (d, Dir es) \<in> set entries \<and> (f, File) \<in> set es \<and>
             (\<forall>x \<in> set d. \<not> isLineTerminator x)"
  let ?rs = "sort (map (\<lambda>ns. joinWith ''/'' (scs @ ns))
               (filter (\<lambda>ns. globTest ''**/*'' (joinWith ''/'' ns)) (filesUnder st)))"
  have g: "glob W (absPath wcs) ''**/*'' (searchArg scs) = Success ?rs"
    using glob_result[OF _ w s st dir wf, of "''**/*''"] by simp
  have we: "wfEntries entries" using a wf by simp
  have wes: "wfEntries es" using entries_clean[OF we, of d "Dir es"] a by simp
  have cf: "cleanSeg f" using entries_clean[OF wes, of f File] a by simp
  have "[f] \<in> set (filesUnder (Dir es))" using filesIn_file[of f es] a by simp
  then have m: "[d, f] \<in> set (filesUnder st)"
    using filesIn_dir[of d "Dir es" entries "[f]"] a by simp
  have t: "globTest ''**/*'' (joinWith ''/'' [d, f])"
    using globstar_star_test[of f d] cf a by (simp add: cleanSeg_def sep_def)
  have "joinWith ''/'' (scs @ [d, f]) \<in> set ?rs" using m t by force
  then show "\<exists>rs. glob W (absPath wcs) ''**/*'' (searchArg scs) = Success rs \<and>
              joinWith ''/'' (scs @ [d, f]) \<in> set rs \<and>
              sep \<in> set (joinWith ''/'' (scs @ [d, f]))"
    using g joinWith_snoc_two[of scs d f] by (intro exI[of _ ?rs]) blast
qed


theorem glob_paths_are_relative_to_the_workspace_witness:
  "list_all cleanSeg [''tmp'', ''ws''] \<and> list_all cleanSeg [''subdir'']
   \<and> walk (root (demoHost noMatches)) ([''tmp'', ''ws''] @ [''subdir''])
       = Inr (Dir [(''code.ts'', File), (''deep'', Dir [(''file.ts'', File)])])
   \<and> wfNode (Dir [(''code.ts'', File), (''deep'', Dir [(''file.ts'', File)])])
   \<and> (''deep'', Dir [(''file.ts'', File)]) \<in> set [(''code.ts'', File), (''deep'', Dir [(''file.ts'', File)])]
   \<and> (''file.ts'', File) \<in> set [(''file.ts'', File)]
   \<and> list_all (\<lambda>x. \<not> isLineTerminator x) ''deep''
   \<and> glob (demoHost noMatches) ''/tmp/ws'' ''**/*'' (Some ''subdir'')
       = Success [''subdir/code.ts'', ''subdir/deep/file.ts'']"
proof -
  let ?st = "Dir [(''code.ts'', File), (''deep'', Dir [(''file.ts'', File)])]"
  have c1: "list_all cleanSeg [''tmp'', ''ws'']" and c2: "list_all cleanSeg [''subdir'']"
    by (simp_all add: cleanSeg_def sep_def)
  have w: "walk (root (demoHost noMatches)) ([''tmp'', ''ws''] @ [''subdir'']) = Inr ?st"
    by (simp add: demoHost_def demoTree_def)
  have d: "isDirectory ?st" by simp
  have wf: "wfNode ?st" by (simp add: cleanSeg_def sep_def)
  have a: "absPath [''tmp'', ''ws''] = ''/tmp/ws''" and b: "searchArg [''subdir''] = Some ''subdir''"
    by (simp_all add: absPath_def searchArg_def sep_def)
  have e: "sort (map (\<lambda>ns. joinWith ''/'' ([''subdir''] @ ns))
      (filter (\<lambda>ns. globTest ''**/*'' (joinWith ''/'' ns)) (filesUnder ?st)))
      = [''subdir/code.ts'', ''subdir/deep/file.ts'']"
    by code_simp
  have n: "''**/*'' \<noteq> []" by simp
  note t = glob_paths_are_relative_to_the_workspace[OF c1[unfolded list_all_iff]
      c2[unfolded list_all_iff] w d wf, where ptn = "''**/*''", THEN conjunct1, rule_format, OF n]
  have g: "glob (demoHost noMatches) ''/tmp/ws'' ''**/*'' (Some ''subdir'')
       = Success [''subdir/code.ts'', ''subdir/deep/file.ts'']"
    using t by (simp only: a b e)
  have m: "(''deep'', Dir [(''file.ts'', File)]) \<in> set [(''code.ts'', File), (''deep'', Dir [(''file.ts'', File)])]"
    and f: "(''file.ts'', File) \<in> set [(''file.ts'', File)]"
    and l: "list_all (\<lambda>x. \<not> isLineTerminator x) ''deep''"
    by (simp_all add: isLineTerminator_def LF_def CR_def)
  show ?thesis using c1 c2 w wf m f l g by (intro conjI)
qed

text \<open>
  Claim C5 as it is written fails: searched from a subdirectory, the single star returns the
  file directly inside it under its path from the workspace root, which contains a slash.
\<close>

theorem star_in_subdirectory_returns_path_with_slash:
  "glob (demoHost noMatches) ''/tmp/ws'' ''*'' (Some ''subdir'') = Success [''subdir/code.ts'']"
  by code_simp

subsection \<open>The workspace check\<close>

text \<open>A path lies within a directory when the directory's segments begin the path's segments.\<close>

definition withinDir :: "string \<Rightarrow> string \<Rightarrow> string \<Rightarrow> bool" where
  "withinDir d dir p =
     (let ds = pathParts (resolve d [dir]); ps = pathParts (resolve d [p])
      in take (length ds) ps = ds)"

definition basePathOf :: "string \<Rightarrow> string option \<Rightarrow> string" where
  "basePathOf workspace searchPath =
     (if truthyStr searchPath then join [workspace, the searchPath] else workspace)"

definition shownPath :: "string option \<Rightarrow> string" where
  "shownPath searchPath = (if truthyStr searchPath then the searchPath else ''.'')"

lemma truthyStr_case: "(case sp of None \<Rightarrow> False | Some s \<Rightarrow> s \<noteq> []) = truthyStr sp"
  by (cases sp) auto

lemma glob_pattern_required: "glob W workspace [] searchPath = Failure ''Pattern is required''"
  by (simp add: glob_def)

lemma glob_traversal_detected:
  "ptn \<noteq> [] \<Longrightarrow>
   \<not> startsWith (normalize (basePathOf workspace searchPath)) (normalize workspace) \<Longrightarrow>
   glob W workspace ptn searchPath =
     Failure ''Path traversal detected: path must be within workspace''"
  by (simp add: glob_def basePathOf_def truthyStr_case Let_def)

lemma glob_directory_not_found:
  "ptn \<noteq> [] \<Longrightarrow>
   startsWith (normalize (basePathOf workspace searchPath)) (normalize workspace) \<Longrightarrow>
   stat W (basePathOf workspace searchPath) = Inl ENOENT \<Longrightarrow>
   glob W workspace ptn searchPath = Failure (''Directory not found: '' @ shownPath searchPath)"
  by (simp add: glob_def basePathOf_def shownPath_def truthyStr_case Let_def)

lemma glob_not_a_directory:
  "ptn \<noteq> [] \<Longrightarrow>
   startsWith (normalize (basePathOf workspace searchPath)) (normalize workspace) \<Longrightarrow>
   stat W (basePathOf workspace searchPath) = Inr st \<Longrightarrow> \<not> isDirectory st \<Longrightarrow>
   glob W workspace ptn searchPath = Failure (''Not a directory: '' @ shownPath searchPath)"
  by (simp add: glob_def basePathOf_def shownPath_def truthyStr_case Let_def)

lemma grep_pattern_required:
  "pattern options = [] \<Longrightarrow> grep W workspace options = Failure ''pattern is required''"
  by (simp add: grep_def)

lemma grep_invalid_regex:
  "pattern options \<noteq> [] \<Longrightarrow> regExpError W (pattern options) = Some detail \<Longrightarrow>
   grep W workspace options = Failure (''Invalid regex pattern: '' @ detail)"
  by (simp add: grep_def)

lemma grep_search_path_outside:
  "pattern options \<noteq> [] \<Longrightarrow> regExpError W (pattern options) = None \<Longrightarrow>
   \<not> startsWith (resolve (cwd W) [searchPathOf workspace options]) (resolve (cwd W) [workspace]) \<Longrightarrow>
   grep W workspace options = Failure ''Search path must be within workspace''"
  by (simp add: grep_def searchPathOf_def Let_def)

text \<open>
  Claim C2 (a search path that resolves outside the workspace root makes both operations
  fail, and every path of a successful glob result lies within the root).  Both operations
  compare the resolved path with the workspace path as strings: \<^verbatim>\<open>/tmp/ws2\<close> starts with
  \<^verbatim>\<open>/tmp/ws\<close>, so the sibling directory passes the check, \<^verbatim>\<open>glob\<close> returns a file outside the
  root and \<^verbatim>\<open>grep\<close> runs the backend there.
\<close>

theorem sibling_directory_passes_the_workspace_check:
  "glob (demoHost noMatches) ''/tmp/ws'' ''*'' (Some ''../ws2'') = Success [''../ws2/secret.txt'']
   \<and> \<not> withinDir ''/'' ''/tmp/ws'' (join [''/tmp/ws'', ''../ws2''])
   \<and> \<not> withinDir ''/'' ''/tmp/ws'' (join [''/tmp/ws'', ''../ws2/secret.txt''])
   \<and> grep (demoHost (Closed (Some 0) ''/tmp/ws2/secret.txt'' [])) ''/tmp/ws''
        (demoOptions\<lparr> path := Some ''../ws2'' \<rparr>)
      = Success (FilesData [''../ws2/secret.txt''])"
  by code_simp

lemma glob_other_stat_error:
  "ptn \<noteq> [] \<Longrightarrow>
   startsWith (normalize (basePathOf workspace searchPath)) (normalize workspace) \<Longrightarrow>
   stat W (basePathOf workspace searchPath) = Inl e \<Longrightarrow> e \<noteq> ENOENT \<Longrightarrow>
   glob W workspace ptn searchPath = Failure (errnoMessage e ''stat'' (basePathOf workspace searchPath))"
  by (simp add: glob_def basePathOf_def truthyStr_case Let_def)

lemma glob_success_passed_checks:
  "glob W workspace ptn searchPath = Success rs \<Longrightarrow>
   ptn \<noteq> [] \<and> startsWith (normalize (basePathOf workspace searchPath)) (normalize workspace) \<and>
   (\<exists>st. stat W (basePathOf workspace searchPath) = Inr st \<and> isDirectory st)"
  by (auto simp: glob_def basePathOf_def truthyStr_case Let_def
      split: if_splits sum.splits option.splits)

lemma grep_success_passed_checks:
  "grep W workspace options = Success r \<Longrightarrow> reachesBackend W workspace options"
  by (auto simp: grep_def reachesBackend_def searchPathOf_def Let_def
      split: if_splits option.splits sum.splits)

text \<open>
  Claim C8, amended.  Each check of the two operations that fails gives a failure with the
  documented string: the empty pattern, the base path that does not start with the workspace
  path, the base path that does not exist, the base path that is not a directory; the empty
  pattern, the pattern that is not a regular expression, and the search path that does not
  start with the workspace path.  Any other failure of \<^verbatim>\<open>stat\<close> gives the system's message.
  Both operations always return a value, and a success only when every check has passed.
\<close>

theorem failed_checks_carry_the_documented_strings:
  "glob W workspace [] searchPath = Failure ''Pattern is required''
   \<and> (ptn \<noteq> [] \<and>
        \<not> startsWith (normalize (basePathOf workspace searchPath)) (normalize workspace) \<longrightarrow>
      glob W workspace ptn searchPath =
        Failure ''Path traversal detected: path must be within workspace'')
   \<and> (ptn \<noteq> [] \<and>
        startsWith (normalize (basePathOf workspace searchPath)) (normalize workspace) \<and>
        stat W (basePathOf workspace searchPath) = Inl ENOENT \<longrightarrow>
      glob W workspace ptn searchPath = Failure (''Directory not found: '' @ shownPath searchPath))
   \<and> (ptn \<noteq> [] \<and>
        startsWith (normalize (basePathOf workspace searchPath)) (normalize workspace) \<and>
        stat W (basePathOf workspace searchPath) = Inr st \<and> \<not> isDirectory st \<longrightarrow>
      glob W workspace ptn searchPath = Failure (''Not a directory: '' @ shownPath searchPath))
   \<and> (ptn \<noteq> [] \<and>
        startsWith (normalize (basePathOf workspace searchPath)) (normalize workspace) \<and>
        stat W (basePathOf workspace searchPath) = Inl e \<and> e \<noteq> ENOENT \<longrightarrow>
      glob W workspace ptn searchPath =
        Failure (errnoMessage e ''stat'' (basePathOf workspace searchPath)))
   \<and> (glob W workspace ptn searchPath = Success rs \<longrightarrow>
        ptn \<noteq> [] \<and>
        startsWith (normalize (basePathOf workspace searchPath)) (normalize workspace) \<and>
        (\<exists>d. stat W (basePathOf workspace searchPath) = Inr d \<and> isDirectory d))
   \<and> (pattern options = [] \<longrightarrow> grep W workspace options = Failure ''pattern is required'')
   \<and> (pattern options \<noteq> [] \<and> regExpError W (pattern options) = Some detail \<longrightarrow>
      grep W workspace options = Failure (''Invalid regex pattern: '' @ detail))
   \<and> (pattern options \<noteq> [] \<and> regExpError W (pattern options) = None \<and>
        \<not> startsWith (resolve (cwd W) [searchPathOf workspace options])
            (resolve (cwd W) [workspace]) \<longrightarrow>
      grep W workspace options = Failure ''Search path must be within workspace'')
   \<and> (grep W workspace options = Success r \<longrightarrow> reachesBackend W workspace options)"
  using glob_pattern_required[of W workspace searchPath]
    glob_traversal_detected[of ptn workspace searchPath W]
    glob_directory_not_found[of ptn workspace searchPath W]
    glob_not_a_directory[of ptn workspace searchPath W st]
    glob_other_stat_error[of ptn workspace searchPath W e]
    glob_success_passed_checks[of W workspace ptn searchPath rs]
    grep_pattern_required[of options W workspace]
    grep_invalid_regex[of options W detail workspace]
    grep_search_path_outside[of options W workspace]
    grep_success_passed_checks[of W workspace options r]
  by blast

text \<open>
  Claim C8 as it is written fails: a base path that runs through a regular file is a missing
  base directory, and it is reported with the system's message, not as a directory not found.
\<close>

theorem path_through_a_file_gives_the_system_message:
  "glob (demoHost noMatches) ''/tmp/ws'' ''*'' (Some ''file1.txt/x'')
     = Failure (errnoMessage ENOTDIR ''stat'' ''/tmp/ws/file1.txt/x'')
   \<and> glob (demoHost noMatches) ''/tmp/ws'' ''*'' (Some ''file1.txt/x'')
     \<noteq> Failure ''Directory not found: file1.txt/x''
   \<and> stat (demoHost noMatches) ''/tmp/ws/file1.txt'' = Inr File"
  by code_simp

theorem failed_checks_carry_the_documented_strings_witness:
  "glob (demoHost noMatches) ''/tmp/ws'' ''*'' (Some ''../../..'')
     = Failure ''Path traversal detected: path must be within workspace''
   \<and> glob (demoHost noMatches) ''/tmp/ws'' ''*'' (Some ''nonexistent'')
     = Failure ''Directory not found: nonexistent''
   \<and> glob (demoHost noMatches) ''/tmp/ws'' ''*'' (Some ''file1.txt'')
     = Failure ''Not a directory: file1.txt''
   \<and> glob (demoHost noMatches) ''/tmp/ws'' ''*'' (Some ''file1.txt/x'')
     = Failure (errnoMessage ENOTDIR ''stat'' ''/tmp/ws/file1.txt/x'')
   \<and> grep (demoHost noMatches) ''/tmp/ws'' (demoOptions\<lparr> pattern := [] \<rparr>)
     = Failure ''pattern is required''
   \<and> grep (demoHost noMatches) ''/tmp/ws'' (demoOptions\<lparr> pattern := ''[invalid'' \<rparr>)
     = Failure ''Invalid regex pattern: Unterminated character class''
   \<and> grep (demoHost noMatches) ''/tmp/ws'' (demoOptions\<lparr> path := Some ''../../outside'' \<rparr>)
     = Failure ''Search path must be within workspace''
   \<and> reachesBackend (demoHost noMatches) ''/tmp/ws'' demoOptions"
proof -
  let ?W = "demoHost noMatches"
  note t = failed_checks_carry_the_documented_strings[where W = ?W and workspace = "''/tmp/ws''"]
  have n: "''*'' \<noteq> []" by simp
  have a1: "\<not> startsWith (normalize (basePathOf ''/tmp/ws'' (Some ''../../..''))) (normalize ''/tmp/ws'')"
    by code_simp
  have g1: "glob ?W ''/tmp/ws'' ''*'' (Some ''../../..'')
     = Failure ''Path traversal detected: path must be within workspace''"
    using t[where ptn = "''*''" and searchPath = "Some ''../../..''", THEN conjunct2, THEN conjunct1]
      n a1 by blast
  have a2: "startsWith (normalize (basePathOf ''/tmp/ws'' (Some ''nonexistent''))) (normalize ''/tmp/ws'')
      \<and> stat ?W (basePathOf ''/tmp/ws'' (Some ''nonexistent'')) = Inl ENOENT
      \<and> shownPath (Some ''nonexistent'') = ''nonexistent''"
    by code_simp
  have g2: "glob ?W ''/tmp/ws'' ''*'' (Some ''nonexistent'') = Failure ''Directory not found: nonexistent''"
    using t[where ptn = "''*''" and searchPath = "Some ''nonexistent''",
        THEN conjunct2, THEN conjunct2, THEN conjunct1] n a2 by simp
  have a3: "startsWith (normalize (basePathOf ''/tmp/ws'' (Some ''file1.txt''))) (normalize ''/tmp/ws'')
      \<and> stat ?W (basePathOf ''/tmp/ws'' (Some ''file1.txt'')) = Inr File
      \<and> shownPath (Some ''file1.txt'') = ''file1.txt''"
    by code_simp
  have g3: "glob ?W ''/tmp/ws'' ''*'' (Some ''file1.txt'') = Failure ''Not a directory: file1.txt''"
    using t[where ptn = "''*''" and searchPath = "Some ''file1.txt''" and st = File,
        THEN conjunct2, THEN conjunct2, THEN conjunct2, THEN conjunct1] n a3 by simp
  have b4: "basePathOf ''/tmp/ws'' (Some ''file1.txt/x'') = ''/tmp/ws/file1.txt/x''"
    by code_simp
  have a4: "startsWith (normalize ''/tmp/ws/file1.txt/x'') (normalize ''/tmp/ws'')
      \<and> stat ?W ''/tmp/ws/file1.txt/x'' = Inl ENOTDIR"
    by code_simp
  have g4: "glob ?W ''/tmp/ws'' ''*'' (Some ''file1.txt/x'')
     = Failure (errnoMessage ENOTDIR ''stat'' ''/tmp/ws/file1.txt/x'')"
    using t[where ptn = "''*''" and searchPath = "Some ''file1.txt/x''" and e = ENOTDIR,
        THEN conjunct2, THEN conjunct2, THEN conjunct2, THEN conjunct2, THEN conjunct1,
        unfolded b4] n a4
    by blast
  have g5: "grep ?W ''/tmp/ws'' (demoOptions\<lparr> pattern := [] \<rparr>) = Failure ''pattern is required''"
    using t[where options = "demoOptions\<lparr> pattern := [] \<rparr>",
        THEN conjunct2, THEN conjunct2, THEN conjunct2, THEN conjunct2, THEN conjunct2,
        THEN conjunct2, THEN conjunct1] by simp
  have a6: "regExpError ?W ''[invalid'' = Some ''Unterminated character class''"
    by (simp add: demoHost_def)
  have g6: "grep ?W ''/tmp/ws'' (demoOptions\<lparr> pattern := ''[invalid'' \<rparr>)
     = Failure ''Invalid regex pattern: Unterminated character class''"
    using t[where options = "demoOptions\<lparr> pattern := ''[invalid'' \<rparr>"
        and detail = "''Unterminated character class''",
        THEN conjunct2, THEN conjunct2, THEN conjunct2, THEN conjunct2, THEN conjunct2,
        THEN conjunct2, THEN conjunct2, THEN conjunct1] a6 by simp
  have a7: "pattern (demoOptions\<lparr> path := Some ''../../outside'' \<rparr>) \<noteq> []
      \<and> regExpError ?W (pattern (demoOptions\<lparr> path := Some ''../../outside'' \<rparr>)) = None
      \<and> \<not> startsWith (resolve (cwd ?W) [searchPathOf ''/tmp/ws'' (demoOptions\<lparr> path := Some ''../../outside'' \<rparr>)])
            (resolve (cwd ?W) [''/tmp/ws''])"
    by code_simp
  have g7: "grep ?W ''/tmp/ws'' (demoOptions\<lparr> path := Some ''../../outside'' \<rparr>)
     = Failure ''Search path must be within workspace''"
    using t[where options = "demoOptions\<lparr> path := Some ''../../outside'' \<rparr>",
        THEN conjunct2, THEN conjunct2, THEN conjunct2, THEN conjunct2, THEN conjunct2,
        THEN conjunct2, THEN conjunct2, THEN conjunct2, THEN conjunct1] a7 by blast
  have a8: "grep ?W ''/tmp/ws'' demoOptions = Success (FilesData [])" by code_simp
  have g8: "reachesBackend ?W ''/tmp/ws'' demoOptions"
    using t[where options = demoOptions and r = "FilesData []",
        THEN conjunct2, THEN conjunct2, THEN conjunct2, THEN conjunct2, THEN conjunct2,
        THEN conjunct2, THEN conjunct2, THEN conjunct2, THEN conjunct2] a8 by blast
  show ?thesis using g1 g2 g3 g4 g5 g6 g7 g8 by (intro conjI)
qed

end
